theory Spec2Isabelle
  imports Main "HOL-Library.Word" "HOL-Library.Signed_Division" "HOL-Library.Multiset"
begin

section \<open>The scanner of scanner.go\<close>

text \<open>
  The Go types \<^verbatim>\<open>int64\<close> and (on the 64-bit targets) \<^verbatim>\<open>int\<close> are 64-bit words whose
  arithmetic wraps around silently; they are read as two's complement numbers by \<open>sint\<close> and
  compared with the signed orders \<open><s\<close> and \<open>\<le>s\<close>.
\<close>

type_synonym int64 = "64 word"

subsection \<open>Data\<close>

text \<open>\<^verbatim>\<open>type fetchRange struct { start int64; end int64 }\<close>\<close>

record fetchRange =
  start :: int64
  "end" :: int64

text \<open>\<^verbatim>\<open>func min(a int64, b int64) int64\<close> and \<^verbatim>\<open>func max\<close>.\<close>

definition min64 :: "int64 \<Rightarrow> int64 \<Rightarrow> int64" where
  "min64 a b = (if a <s b then a else b)"

definition max64 :: "int64 \<Rightarrow> int64 \<Rightarrow> int64" where
  "max64 a b = (if b <s a then a else b)"

subsection \<open>The partitioning loop of Scan\<close>

text \<open>
  \<^verbatim>\<open>
  var ranges list.List
  for start := startIndex; start < int64(endIndex); {
      end := min(start+int64(s.opts.BatchSize), int64(endIndex)) - 1
      ranges.PushBack(fetchRange{start, end})
      start = end + 1
  }
  \<close>
  The loop has no bound of its own, so it is a partial function: \<open>None\<close> is the loop
  that never leaves.
\<close>

partial_function (option) partition_loop ::
  "int64 \<Rightarrow> int64 \<Rightarrow> int64 \<Rightarrow> fetchRange list \<Rightarrow> fetchRange list option" where
  "partition_loop st endIndex batchSize ranges =
     (if st <s endIndex
      then (let e = min64 (st + batchSize) endIndex - 1
            in partition_loop (e + 1) endIndex batchSize (ranges @ [\<lparr>start = st, end = e\<rparr>]))
      else Some ranges)"

declare partition_loop.simps [code]

definition partition :: "int64 \<Rightarrow> int64 \<Rightarrow> int64 \<Rightarrow> fetchRange list option" where
  "partition startIndex endIndex batchSize = partition_loop startIndex endIndex batchSize []"

text \<open>The indices a range stands for, as numbers, in ascending order.\<close>

definition range_indices :: "fetchRange \<Rightarrow> int list" where
  "range_indices r = [sint (start r) .. sint (end r)]"

text \<open>
  \<open>tiles s e b rs\<close>: the ranges \<open>rs\<close>, in order, are non-empty, at most \<open>b\<close> wide, begin at
  \<open>s\<close>, each begin right after the one before, and the last one ends at \<open>e - 1\<close>.
\<close>

fun tiles :: "int \<Rightarrow> int \<Rightarrow> int \<Rightarrow> fetchRange list \<Rightarrow> bool" where
  "tiles s e b [] = (s = e)"
| "tiles s e b (r # rs) =
     (sint (start r) = s \<and> s \<le> sint (end r) \<and> sint (end r) - s + 1 \<le> b \<and> sint (end r) < e \<and>
      tiles (sint (end r) + 1) e b rs)"

subsection \<open>Scanner, options, log entries and the log client\<close>

text \<open>
  \<^verbatim>\<open>type ScannerOptions struct { BatchSize int; NumWorkers int; ParallelFetch int; Quiet bool }\<close>
\<close>

record ScannerOptions =
  BatchSize :: int64
  NumWorkers :: int64
  ParallelFetch :: int64
  Quiet :: bool

definition DefaultScannerOptions :: ScannerOptions where
  "DefaultScannerOptions =
     \<lparr>BatchSize = 1000, NumWorkers = 1, ParallelFetch = 1, Quiet = False\<rparr>"

text \<open>
  \<^verbatim>\<open>ct.LogEntry\<close> comes from the certificate-transparency library. The scanner writes its
  \<^verbatim>\<open>Index\<close> field and treats everything else as opaque; \<open>Leaf\<close> stands for the rest.
\<close>

record LogEntry =
  Index :: int64
  Leaf :: string

text \<open>
  \<^verbatim>\<open>ct.SignedTreeHead\<close>, of the certificate-transparency library: the scanner reads its
  \<^verbatim>\<open>TreeSize\<close> field, a \<^verbatim>\<open>uint64\<close> (the number it holds is \<open>uint\<close> of the word), and converts
  it with \<^verbatim>\<open>int64(...)\<close>. A Go conversion between 64-bit integer types keeps the bits, which
  are then read as two's complement (\<open>sint\<close>).
\<close>

record SignedTreeHead =
  STH_TreeSize :: "64 word"
  STH_Timestamp :: "64 word"

text \<open>
  \<^verbatim>\<open>client.LogClient\<close> is the network. An \<^verbatim>\<open>error\<close> is represented by its message. What
  the log answers may change from call to call, so each request also takes the number of
  requests of that kind issued before it: any sequence of answers is some such function.
\<close>

record LogClient =
  GetEntries :: "nat \<Rightarrow> int64 \<Rightarrow> int64 \<Rightarrow> string + LogEntry list"
  GetSTH :: "nat \<Rightarrow> string + SignedTreeHead"

record Scanner =
  LogUri :: string
  logClient :: LogClient
  opts :: ScannerOptions
  certsProcessed :: int64

text \<open>\<^verbatim>\<open>func NewScanner(logUri string, client *client.LogClient, opts ScannerOptions) *Scanner\<close>\<close>

definition NewScanner :: "string \<Rightarrow> LogClient \<Rightarrow> ScannerOptions \<Rightarrow> Scanner" where
  "NewScanner logUri client options =
     \<lparr>LogUri = logUri, logClient = client, opts = options, certsProcessed = 0\<rparr>"

subsection \<open>Formatting\<close>

text \<open>\<^verbatim>\<open>fmt.Sprintf("%d", n)\<close>: decimal digits, with a minus sign for a negative number.\<close>

fun decimal :: "nat \<Rightarrow> string" where
  "decimal n = (if n < 10 then [char_of (48 + n)] else decimal (n div 10) @ [char_of (48 + n mod 10)])"

declare decimal.simps [simp del]

definition sprintf_d :: "int \<Rightarrow> string" where
  "sprintf_d i = (if i < 0 then CHR ''-'' # decimal (nat (- i)) else decimal (nat i))"

text \<open>
  Go's \<^verbatim>\<open>/\<close> and \<^verbatim>\<open>%\<close> on signed integers truncate towards zero (\<open>sdiv\<close>, \<open>smod\<close>);
  the quotient wraps like every other result. The divisors below are non-zero constants.
\<close>

definition go_div :: "int64 \<Rightarrow> int64 \<Rightarrow> int64" where
  "go_div a b = word_of_int (sint a sdiv sint b)"

definition go_mod :: "int64 \<Rightarrow> int64 \<Rightarrow> int64" where
  "go_mod a b = word_of_int (sint a smod sint b)"

text \<open>\<^verbatim>\<open>time.Duration\<close> counts nanoseconds in an \<^verbatim>\<open>int64\<close>.\<close>

definition Second :: int64 where "Second = 1000000000"
definition Minute :: int64 where "Minute = 60 * Second"
definition Hour :: int64 where "Hour = 60 * Minute"

text \<open>
  \<^verbatim>\<open>
  func humanTime(seconds int) string {
      nanos := time.Duration(seconds) * time.Second
      hours := int(nanos / (time.Hour))
      nanos %= time.Hour
      minutes := int(nanos / time.Minute)
      nanos %= time.Minute
      seconds = int(nanos / time.Second)
      s := ""
      if hours > 0 { s += fmt.Sprintf("%d hours ", hours) }
      if minutes > 0 { s += fmt.Sprintf("%d minutes ", minutes) }
      if seconds > 0 { s += fmt.Sprintf("%d seconds ", seconds) }
      return s
  }
  \<close>
\<close>

definition humanTime :: "int64 \<Rightarrow> string" where
  "humanTime seconds =
     (let nanos = seconds * Second;
          hours = go_div nanos Hour;
          nanos = go_mod nanos Hour;
          minutes = go_div nanos Minute;
          nanos = go_mod nanos Minute;
          seconds = go_div nanos Second;
          s = [];
          s = (if 0 <s hours then s @ sprintf_d (sint hours) @ '' hours '' else s);
          s = (if 0 <s minutes then s @ sprintf_d (sint minutes) @ '' minutes '' else s);
          s = (if 0 <s seconds then s @ sprintf_d (sint seconds) @ '' seconds '' else s)
      in s)"

text \<open>
  The description of \<open>humanTime\<close> in words: a component is its value in decimal followed by
  its unit, and is left out when the value is zero.
\<close>

definition time_component :: "int \<Rightarrow> string \<Rightarrow> string" where
  "time_component v unit = (if v = 0 then [] else sprintf_d v @ unit)"

definition humanTime_spec :: "int \<Rightarrow> string" where
  "humanTime_spec seconds =
     time_component (seconds div 3600) '' hours '' @
     time_component ((seconds mod 3600) div 60) '' minutes '' @
     time_component (seconds mod 60) '' seconds ''"

subsection \<open>Logging\<close>

text \<open>
  \<^verbatim>\<open>func (s Scanner) Log(msg string)\<close> and \<^verbatim>\<open>func (s Scanner) Warn(msg string)\<close>: the lines
  handed to \<^verbatim>\<open>log.Print\<close> are collected in a list, oldest first.
\<close>

definition Log :: "Scanner \<Rightarrow> string \<Rightarrow> string list \<Rightarrow> string list" where
  "Log s msg printed = (if \<not> Quiet (opts s) then printed @ [LogUri s @ '': '' @ msg] else printed)"

definition Warn :: "Scanner \<Rightarrow> string \<Rightarrow> string list \<Rightarrow> string list" where
  "Warn s msg printed = printed @ [LogUri s @ '': '' @ msg]"

subsection \<open>TreeSize\<close>

text \<open>
  \<^verbatim>\<open>
  func (s *Scanner) TreeSize() (int64, error) {
      latestSth, err := s.logClient.GetSTH()
      if err != nil { return 0, err }
      return int64(latestSth.TreeSize), nil
  }
  \<close>
  The result is Go's pair of a value and an error (\<open>None\<close> is \<^verbatim>\<open>nil\<close>), together with the number
  of \<^verbatim>\<open>GetSTH\<close> requests issued so far.
\<close>

definition TreeSize :: "Scanner \<Rightarrow> nat \<Rightarrow> (int64 \<times> string option) \<times> nat" where
  "TreeSize s n =
     (case GetSTH (logClient s) n of
        Inl err \<Rightarrow> ((0, Some err), Suc n)
      | Inr latestSth \<Rightarrow> ((ucast (STH_TreeSize latestSth), None), Suc n))"

subsection \<open>The fetch worker, one range at a time\<close>

text \<open>
  What one fetcher touches: the lines printed, the number of \<^verbatim>\<open>GetEntries\<close> requests issued
  so far, and the entries pushed onto the \<^verbatim>\<open>entries\<close> channel, oldest first.
\<close>

record worker_view =
  printed :: "string list"
  requests :: nat
  sent :: "LogEntry list"

definition fetching_msg :: "fetchRange \<Rightarrow> string" where
  "fetching_msg r =
     ''Fetching entries '' @ sprintf_d (sint (start r)) @ '' to '' @ sprintf_d (sint (end r))"

definition problem_msg :: "string \<Rightarrow> string" where
  "problem_msg err = ''Problem fetching from log: '' @ err"

text \<open>
  \<^verbatim>\<open>
  for _, logEntry := range logEntries {
      logEntry.Index = r.start
      entries <- logEntry
      r.start++
  }
  \<close>
\<close>

definition reindex :: "LogEntry \<Rightarrow> fetchRange \<Rightarrow> LogEntry" where
  "reindex logEntry r = logEntry\<lparr>Index := start r\<rparr>"

definition advance :: "fetchRange \<Rightarrow> fetchRange" where
  "advance r = r\<lparr>start := start r + 1\<rparr>"

fun send_entries :: "LogEntry list \<Rightarrow> fetchRange \<Rightarrow> LogEntry list \<Rightarrow> fetchRange \<times> LogEntry list" where
  "send_entries [] r q = (r, q)"
| "send_entries (logEntry # rest) r q = send_entries rest (advance r) (q @ [reindex logEntry r])"

text \<open>
  One turn of the loop \<^verbatim>\<open>for !success { ... }\<close> of \<^verbatim>\<open>fetcherJob\<close>: the value of
  \<^verbatim>\<open>success\<close> at its end, the range as it then is, and the new view.
  \<^verbatim>\<open>
  s.Log(fmt.Sprintf("Fetching entries %d to %d", r.start, r.end))
  logEntries, err := s.logClient.GetEntries(r.start, r.end)
  if err != nil {
      s.Warn(fmt.Sprintf("Problem fetching from log: %s", err.Error()))
      continue
  }
  for _, logEntry := range logEntries { ... }
  if r.start > r.end { success = true }
  \<close>
\<close>

definition fetch_attempt :: "Scanner \<Rightarrow> fetchRange \<Rightarrow> worker_view \<Rightarrow> bool \<times> fetchRange \<times> worker_view" where
  "fetch_attempt s r w =
     (let w1 = w\<lparr>printed := Log s (fetching_msg r) (printed w), requests := Suc (requests w)\<rparr>
      in case GetEntries (logClient s) (requests w) (start r) (end r) of
           Inl err \<Rightarrow> (False, r, w1\<lparr>printed := Warn s (problem_msg err) (printed w1)\<rparr>)
         | Inr logEntries \<Rightarrow>
             (case send_entries logEntries r (sent w1) of
                (r', q) \<Rightarrow> (end r' <s start r', r', w1\<lparr>sent := q\<rparr>)))"

text \<open>The loop itself: it has no bound, and \<open>None\<close> is the worker that never leaves it.\<close>

partial_function (option) fetch_range :: "Scanner \<Rightarrow> fetchRange \<Rightarrow> worker_view \<Rightarrow> worker_view option" where
  "fetch_range s r w =
     (case fetch_attempt s r w of
        (success, r', w') \<Rightarrow> if success then Some w' else fetch_range s r' w')"

declare fetch_range.simps [code]

text \<open>
  \<^verbatim>\<open>for r := range ranges { ... }\<close> for a worker that is alone on a closed channel holding
  \<open>ranges\<close>, followed by its last line.
\<close>

fun fetch_ranges :: "Scanner \<Rightarrow> fetchRange list \<Rightarrow> worker_view \<Rightarrow> worker_view option" where
  "fetch_ranges s [] w = Some w"
| "fetch_ranges s (r # ranges) w =
     (case fetch_range s r w of None \<Rightarrow> None | Some w' \<Rightarrow> fetch_ranges s ranges w')"

definition finished_msg :: "string \<Rightarrow> nat \<Rightarrow> string" where
  "finished_msg who w = who @ '' '' @ sprintf_d (int w) @ '' finished''"

definition fetcherJob :: "Scanner \<Rightarrow> nat \<Rightarrow> fetchRange list \<Rightarrow> worker_view \<Rightarrow> worker_view option" where
  "fetcherJob s i ranges w =
     (case fetch_ranges s ranges w of
        None \<Rightarrow> None
      | Some w' \<Rightarrow> Some (w'\<lparr>printed := Log s (finished_msg ''Fetcher'' i) (printed w')\<rparr>))"

text \<open>
  What the claims assume of the log. "Never more than requested": an answer to the request
  for a non-empty range \<open>[a, b]\<close> holds at most \<open>b - a + 1\<close> entries. Nothing is assumed
  of the \<^verbatim>\<open>Index\<close> fields of the entries in an answer.
\<close>

definition never_more_than_requested :: "LogClient \<Rightarrow> bool" where
  "never_more_than_requested c \<longleftrightarrow>
     (\<forall>n a b logEntries. a \<le>s b \<longrightarrow> GetEntries c n a b = Inr logEntries \<longrightarrow>
        int (length logEntries) \<le> sint b - sint a + 1)"

text \<open>
  "Answers eventually": whatever has been requested so far, a later request for a non-empty
  range \<open>[a, b]\<close> is answered with at least one entry.
\<close>

definition answers_eventually :: "LogClient \<Rightarrow> bool" where
  "answers_eventually c \<longleftrightarrow>
     (\<forall>n a b. a \<le>s b \<longrightarrow> (\<exists>m logEntries. n \<le> m \<and> GetEntries c m a b = Inr logEntries \<and> logEntries \<noteq> []))"

text \<open>"Returns the full range on every call".\<close>

definition returns_full_range :: "LogClient \<Rightarrow> bool" where
  "returns_full_range c \<longleftrightarrow>
     (\<forall>n a b. a \<le>s b \<longrightarrow>
        (\<exists>logEntries. GetEntries c n a b = Inr logEntries \<and>
                      int (length logEntries) = sint b - sint a + 1))"

subsection \<open>Scan: an orchestrator, fetchers and processers running interleaved\<close>

text \<open>
  Where each goroutine stands. A fetcher waits at \<^verbatim>\<open>for r := range ranges\<close>, is about to call
  \<^verbatim>\<open>GetEntries\<close> for a range, is pushing the entries of an answer, or has called
  \<^verbatim>\<open>wg.Done()\<close>. A processer waits at \<^verbatim>\<open>for entry := range entries\<close>, holds an entry it is
  about to count, holds a counted entry it is about to hand to \<^verbatim>\<open>processCert\<close>, or has
  called \<^verbatim>\<open>wg.Done()\<close>. The orchestrator (the body of Scan after the partitioning loop and
  the two \<^verbatim>\<open>go\<close> loops) still has ranges to enqueue, waits for the fetchers, waits for the
  processers, or has returned an \<^verbatim>\<open>error\<close> (\<open>None\<close> is \<^verbatim>\<open>nil\<close>).
\<close>

datatype fetcher = FRecv | FFetch fetchRange | FSend fetchRange "LogEntry list" | FDone

datatype processer = PRecv | PCount LogEntry | PCall LogEntry | PDone

datatype orchestrator =
  OEnqueue "fetchRange list" | OWaitFetchers | OWaitProcessors | OReturned "string option"

text \<open>
  The state of a scan: the worker's view, shared by all, and
  \<^item> \<open>certs\<close>, the field \<^verbatim>\<open>s.certsProcessed\<close>;
  \<^item> the buffers of the channels \<^verbatim>\<open>fetches\<close> and \<^verbatim>\<open>jobs\<close>, and whether each is closed;
  \<^item> \<open>enqueued\<close>: every range pushed onto \<^verbatim>\<open>fetches\<close> so far (\<open>sent\<close> is the same for
    \<^verbatim>\<open>jobs\<close>);
  \<^item> the goroutines;
  \<^item> \<open>handled\<close>: the entries \<^verbatim>\<open>processCert\<close> has been called with, oldest first;
  \<^item> \<open>panicked\<close>: a send on a closed channel has brought the program down.
\<close>

record scan_state = worker_view +
  certs :: int64
  fetches :: "fetchRange list"
  fetches_closed :: bool
  enqueued :: "fetchRange list"
  jobs :: "LogEntry list"
  jobs_closed :: bool
  fetchers :: "fetcher list"
  processers :: "processer list"
  handled :: "LogEntry list"
  orch :: orchestrator
  panicked :: bool

text \<open>\<^verbatim>\<open>fetches := make(chan fetchRange, 1000)\<close> and \<^verbatim>\<open>jobs := make(chan ct.LogEntry, 100000)\<close>\<close>

definition fetches_cap :: nat where "fetches_cap = 1000"
definition jobs_cap :: nat where "jobs_cap = 100000"

definition completed_msg :: "int64 \<Rightarrow> int64 \<Rightarrow> string" where
  "completed_msg n secs = ''Completed '' @ sprintf_d (sint n) @ '' certs in '' @ humanTime secs"

text \<open>
  The next step of the orchestrator, \<open>None\<close> when it is blocked or has returned. \<open>secs\<close> is
  what the clock says when Scan prints its last line.
  \<^verbatim>\<open>
  for r := ranges.Front(); r != nil; r = r.Next() { fetches <- r.Value.(fetchRange) }
  close(fetches)
  fetcherWG.Wait()
  close(jobs)
  processorWG.Wait()
  s.Log(fmt.Sprintf("Completed %d certs in %s", s.certsProcessed, humanTime(...)))
  return nil
  \<close>
\<close>

definition orchestrator_step :: "Scanner \<Rightarrow> int64 \<Rightarrow> scan_state \<Rightarrow> scan_state option" where
  "orchestrator_step s secs g =
     (case orch g of
        OEnqueue ranges \<Rightarrow>
          (case ranges of
             r # rest \<Rightarrow>
               if length (fetches g) < fetches_cap
               then Some (g\<lparr>fetches := fetches g @ [r], enqueued := enqueued g @ [r],
                            orch := OEnqueue rest\<rparr>)
               else None
           | [] \<Rightarrow> Some (g\<lparr>fetches_closed := True, orch := OWaitFetchers\<rparr>))
      | OWaitFetchers \<Rightarrow>
          if list_all (\<lambda>f. f = FDone) (fetchers g)
          then Some (g\<lparr>jobs_closed := True, orch := OWaitProcessors\<rparr>)
          else None
      | OWaitProcessors \<Rightarrow>
          if list_all (\<lambda>p. p = PDone) (processers g)
          then Some (g\<lparr>printed := Log s (completed_msg (certs g) secs) (printed g),
                       orch := OReturned None\<rparr>)
          else None
      | OReturned err \<Rightarrow> None)"

text \<open>
  The next step of fetcher \<open>i\<close> (\<^verbatim>\<open>fetcherJob\<close>), \<open>None\<close> when it is blocked or done. A receive
  from the empty, closed channel ends the \<^verbatim>\<open>range\<close> loop; a send blocks while the buffer is
  full and panics on a closed channel.
\<close>

definition fetcher_step :: "Scanner \<Rightarrow> nat \<Rightarrow> scan_state \<Rightarrow> scan_state option" where
  "fetcher_step s i g =
     (if i < length (fetchers g) then
        (case fetchers g ! i of
           FRecv \<Rightarrow>
             (case fetches g of
                r # rest \<Rightarrow> Some (g\<lparr>fetches := rest, fetchers := (fetchers g)[i := FFetch r]\<rparr>)
              | [] \<Rightarrow>
                  if fetches_closed g
                  then Some (g\<lparr>printed := Log s (finished_msg ''Fetcher'' i) (printed g),
                               fetchers := (fetchers g)[i := FDone]\<rparr>)
                  else None)
         | FFetch r \<Rightarrow>
             (let g1 = g\<lparr>printed := Log s (fetching_msg r) (printed g),
                         requests := Suc (requests g)\<rparr>
              in case GetEntries (logClient s) (requests g) (start r) (end r) of
                   Inl err \<Rightarrow> Some (g1\<lparr>printed := Warn s (problem_msg err) (printed g1)\<rparr>)
                 | Inr logEntries \<Rightarrow> Some (g1\<lparr>fetchers := (fetchers g)[i := FSend r logEntries]\<rparr>))
         | FSend r logEntries \<Rightarrow>
             (case logEntries of
                logEntry # rest \<Rightarrow>
                  if jobs_closed g then Some (g\<lparr>panicked := True\<rparr>)
                  else if length (jobs g) < jobs_cap
                  then Some (g\<lparr>jobs := jobs g @ [reindex logEntry r],
                               sent := sent g @ [reindex logEntry r],
                               fetchers := (fetchers g)[i := FSend (advance r) rest]\<rparr>)
                  else None
              | [] \<Rightarrow>
                  Some (g\<lparr>fetchers := (fetchers g)[i := (if end r <s start r then FRecv else FFetch r)]\<rparr>))
         | FDone \<Rightarrow> None)
      else None)"

text \<open>
  The next step of processer \<open>j\<close> (\<^verbatim>\<open>processerJob\<close>):
  \<^verbatim>\<open>
  for entry := range entries {
      atomic.AddInt64(&s.certsProcessed, 1)
      processCert(s, &entry)
  }
  s.Log(fmt.Sprintf("Processor %d finished", id))
  wg.Done()
  \<close>
  The callback \<^verbatim>\<open>processCert\<close> is the caller's; what is kept of a call is the entry it was given.
\<close>

definition processer_step :: "Scanner \<Rightarrow> nat \<Rightarrow> scan_state \<Rightarrow> scan_state option" where
  "processer_step s j g =
     (if j < length (processers g) then
        (case processers g ! j of
           PRecv \<Rightarrow>
             (case jobs g of
                entry # rest \<Rightarrow> Some (g\<lparr>jobs := rest, processers := (processers g)[j := PCount entry]\<rparr>)
              | [] \<Rightarrow>
                  if jobs_closed g
                  then Some (g\<lparr>printed := Log s (finished_msg ''Processor'' j) (printed g),
                               processers := (processers g)[j := PDone]\<rparr>)
                  else None)
         | PCount entry \<Rightarrow>
             Some (g\<lparr>certs := certs g + 1, processers := (processers g)[j := PCall entry]\<rparr>)
         | PCall entry \<Rightarrow>
             Some (g\<lparr>handled := handled g @ [entry], processers := (processers g)[j := PRecv]\<rparr>)
         | PDone \<Rightarrow> None)
      else None)"

text \<open>One step of the program: some goroutine that can move does, unless the program is down.\<close>

datatype thread = Orchestrator | Fetcher nat | Processer nat

definition thread_step :: "Scanner \<Rightarrow> int64 \<Rightarrow> thread \<Rightarrow> scan_state \<Rightarrow> scan_state option" where
  "thread_step s secs t g =
     (if panicked g then None
      else case t of
             Orchestrator \<Rightarrow> orchestrator_step s secs g
           | Fetcher i \<Rightarrow> fetcher_step s i g
           | Processer j \<Rightarrow> processer_step s j g)"

inductive step :: "Scanner \<Rightarrow> scan_state \<Rightarrow> scan_state \<Rightarrow> bool" for s where
  "thread_step s secs t g = Some g' \<Longrightarrow> step s g g'"

text \<open>A schedule is the order in which the goroutines move.\<close>

fun run :: "Scanner \<Rightarrow> int64 \<Rightarrow> thread list \<Rightarrow> scan_state \<Rightarrow> scan_state option" where
  "run s secs [] g = Some g"
| "run s secs (t # ts) g =
     (case thread_step s secs t g of None \<Rightarrow> None | Some g' \<Rightarrow> run s secs ts g')"

text \<open>
  Scan up to the point where the goroutines run:
  \<^verbatim>\<open>
  s.Log("Starting scan...");
  s.certsProcessed = 0
  fetches := make(chan fetchRange, 1000)
  jobs := make(chan ct.LogEntry, 100000)
  ... the partitioning loop ...
  for w := 0; w < s.opts.NumWorkers; w++ { processorWG.Add(1); go s.processerJob(...) }
  for w := 0; w < s.opts.ParallelFetch; w++ { fetcherWG.Add(1); go s.fetcherJob(...) }
  \<close>
  \<open>None\<close> when the partitioning loop never ends. A goroutine that has been started and has
  not moved yet is one that waits at its \<^verbatim>\<open>range\<close> loop, so all of them are there from the
  beginning. Requests are counted from the start of the scan.
\<close>

definition scan_init :: "Scanner \<Rightarrow> int64 \<Rightarrow> int64 \<Rightarrow> scan_state option" where
  "scan_init s startIndex endIndex =
     (case partition startIndex endIndex (BatchSize (opts s)) of
        None \<Rightarrow> None
      | Some ranges \<Rightarrow>
          Some \<lparr>printed = Log s ''Starting scan...'' [], requests = 0, sent = [],
                certs = 0, fetches = [], fetches_closed = False, enqueued = [],
                jobs = [], jobs_closed = False,
                fetchers = replicate (nat (sint (ParallelFetch (opts s)))) FRecv,
                processers = replicate (nat (sint (NumWorkers (opts s)))) PRecv,
                handled = [], orch = OEnqueue ranges, panicked = False\<rparr>)"

text \<open>The states a scan can be in, and the scans that have returned.\<close>

definition reachable :: "Scanner \<Rightarrow> int64 \<Rightarrow> int64 \<Rightarrow> scan_state \<Rightarrow> bool" where
  "reachable s startIndex endIndex g =
     (case scan_init s startIndex endIndex of
        None \<Rightarrow> False
      | Some g0 \<Rightarrow> (step s)\<^sup>*\<^sup>* g0 g)"

definition Scan_returns :: "Scanner \<Rightarrow> int64 \<Rightarrow> int64 \<Rightarrow> scan_state \<Rightarrow> string option \<Rightarrow> bool" where
  "Scan_returns s startIndex endIndex g err \<longleftrightarrow>
     reachable s startIndex endIndex g \<and> orch g = OReturned err"

text \<open>The phase of the orchestrator, for speaking about the order of its steps.\<close>

fun phase :: "orchestrator \<Rightarrow> nat" where
  "phase (OEnqueue ranges) = 0"
| "phase OWaitFetchers = 1"
| "phase OWaitProcessors = 2"
| "phase (OReturned err) = 3"

subsection \<open>What stays true while a scan runs\<close>

text \<open>
  The order of the orchestrator's steps, for a scan whose partitioning loop gave \<open>ranges\<close>:
  what has been enqueued and closed in each phase, who has finished by then, and that a
  goroutine which has left its \<^verbatim>\<open>range\<close> loop has seen its channel closed and empty.
\<close>

definition orch_inv :: "fetchRange list \<Rightarrow> scan_state \<Rightarrow> bool" where
  "orch_inv ranges g \<longleftrightarrow>
     \<not> panicked g \<and>
     (case orch g of
        OEnqueue rest \<Rightarrow> ranges = enqueued g @ rest \<and> \<not> fetches_closed g \<and> \<not> jobs_closed g
      | OWaitFetchers \<Rightarrow> ranges = enqueued g \<and> fetches_closed g \<and> \<not> jobs_closed g
      | OWaitProcessors \<Rightarrow>
          ranges = enqueued g \<and> fetches_closed g \<and> jobs_closed g \<and>
          list_all (\<lambda>f. f = FDone) (fetchers g)
      | OReturned err \<Rightarrow>
          err = None \<and> ranges = enqueued g \<and> fetches_closed g \<and> jobs_closed g \<and>
          list_all (\<lambda>f. f = FDone) (fetchers g) \<and> list_all (\<lambda>p. p = PDone) (processers g)) \<and>
     (FDone \<in> set (fetchers g) \<longrightarrow> fetches_closed g \<and> fetches g = []) \<and>
     (PDone \<in> set (processers g) \<longrightarrow> jobs_closed g \<and> jobs g = [])"

text \<open>The entries counted so far: those handed to the callback, and those about to be.\<close>

fun counted :: "processer \<Rightarrow> nat" where
  "counted (PCall entry) = 1"
| "counted p = 0"

definition count_inv :: "scan_state \<Rightarrow> bool" where
  "count_inv g \<longleftrightarrow>
     certs g = word_of_nat (length (handled g) + sum_list (map counted (processers g)))"

text \<open>
  Where the indices of a scan are: still in a range (not yet enqueued, in the channel, or
  with a fetcher), in an entry (in the channel, or with a processer), or handed to the
  callback.
\<close>

definition entry_index :: "LogEntry \<Rightarrow> int" where
  "entry_index entry = sint (Index entry)"

fun fetcher_holds :: "fetcher \<Rightarrow> int multiset" where
  "fetcher_holds (FFetch r) = mset (range_indices r)"
| "fetcher_holds (FSend r logEntries) = mset (range_indices r)"
| "fetcher_holds f = {#}"

fun processer_holds :: "processer \<Rightarrow> int multiset" where
  "processer_holds (PCount entry) = {#entry_index entry#}"
| "processer_holds (PCall entry) = {#entry_index entry#}"
| "processer_holds p = {#}"

fun orch_holds :: "orchestrator \<Rightarrow> int multiset" where
  "orch_holds (OEnqueue rest) = mset (concat (map range_indices rest))"
| "orch_holds ph = {#}"

definition in_flight :: "scan_state \<Rightarrow> int multiset" where
  "in_flight g =
     orch_holds (orch g) + mset (concat (map range_indices (fetches g))) +
     sum_list (map fetcher_holds (fetchers g)) +
     mset (map entry_index (jobs g)) +
     sum_list (map processer_holds (processers g))"

definition delivered :: "scan_state \<Rightarrow> int multiset" where
  "delivered g = mset (map entry_index (handled g))"

text \<open>
  The ranges in the system are well formed: none ends at the largest \<^verbatim>\<open>int64\<close>, one waiting
  for a request is not empty, and an answer being pushed is no longer than its range.
\<close>

definition range_ok :: "fetchRange \<Rightarrow> bool" where
  "range_ok r \<longleftrightarrow> sint (start r) \<le> sint (end r) \<and> sint (end r) < 2 ^ 63 - 1"

fun fetcher_ok :: "fetcher \<Rightarrow> bool" where
  "fetcher_ok (FFetch r) = range_ok r"
| "fetcher_ok (FSend r logEntries) =
     (sint (end r) < 2 ^ 63 - 1 \<and> int (length logEntries) \<le> sint (end r) - sint (start r) + 1)"
| "fetcher_ok f = True"

fun orch_ok :: "orchestrator \<Rightarrow> bool" where
  "orch_ok (OEnqueue rest) = list_all range_ok rest"
| "orch_ok ph = True"

definition flow_inv :: "int multiset \<Rightarrow> scan_state \<Rightarrow> bool" where
  "flow_inv todo g \<longleftrightarrow>
     in_flight g + delivered g = todo \<and>
     orch_ok (orch g) \<and> list_all range_ok (fetches g) \<and> list_all fetcher_ok (fetchers g)"

text \<open>
  A bound on the steps a scan still has to take, when every request is answered with at least
  one entry: six steps for an index still in a range, three for an entry in the channel.
\<close>

definition remaining :: "fetchRange \<Rightarrow> nat" where
  "remaining r = nat (sint (end r) - sint (start r) + 1)"

fun fetcher_cost :: "fetcher \<Rightarrow> nat" where
  "fetcher_cost FRecv = 1"
| "fetcher_cost (FFetch r) = 6 * remaining r + 2"
| "fetcher_cost (FSend r logEntries) = 6 * remaining r + 3 - 2 * length logEntries"
| "fetcher_cost FDone = 0"

fun processer_cost :: "processer \<Rightarrow> nat" where
  "processer_cost PRecv = 1"
| "processer_cost (PCount entry) = 3"
| "processer_cost (PCall entry) = 2"
| "processer_cost PDone = 0"

fun orch_cost :: "orchestrator \<Rightarrow> nat" where
  "orch_cost (OEnqueue rest) = sum_list (map (\<lambda>r. 6 * remaining r + 3) rest) + 3"
| "orch_cost OWaitFetchers = 2"
| "orch_cost OWaitProcessors = 1"
| "orch_cost (OReturned err) = 0"

definition steps_left :: "scan_state \<Rightarrow> nat" where
  "steps_left g =
     orch_cost (orch g) + sum_list (map (\<lambda>r. 6 * remaining r + 2) (fetches g)) +
     sum_list (map fetcher_cost (fetchers g)) + 3 * length (jobs g) +
     sum_list (map processer_cost (processers g))"

text \<open>"Answers every request with at least one entry, and never more than requested".\<close>

definition always_answers :: "LogClient \<Rightarrow> bool" where
  "always_answers c \<longleftrightarrow>
     (\<forall>n a b. a \<le>s b \<longrightarrow>
        (\<exists>logEntries. GetEntries c n a b = Inr logEntries \<and> logEntries \<noteq> [] \<and>
                      int (length logEntries) \<le> sint b - sint a + 1))"

text \<open>Every fetcher that is about to issue a request will get at least one entry.\<close>

definition answered :: "Scanner \<Rightarrow> scan_state \<Rightarrow> bool" where
  "answered s g \<longleftrightarrow>
     (\<forall>f \<in> set (fetchers g). case f of
        FFetch r \<Rightarrow>
          (case GetEntries (logClient s) (requests g) (start r) (end r) of
             Inl err \<Rightarrow> False
           | Inr logEntries \<Rightarrow> logEntries \<noteq> [])
      | _ \<Rightarrow> True)"

subsection \<open>Runs from the start of a scan, and scans with nothing to do\<close>

definition scan_run :: "Scanner \<Rightarrow> int64 \<Rightarrow> thread list \<Rightarrow> int64 \<Rightarrow> int64 \<Rightarrow> scan_state option" where
  "scan_run s secs schedule startIndex endIndex =
     (case scan_init s startIndex endIndex of
        None \<Rightarrow> None
      | Some g0 \<Rightarrow> run s secs schedule g0)"

text \<open>A scan without ranges: nothing is ever requested, sent, counted or handled.\<close>

definition idle :: "scan_state \<Rightarrow> bool" where
  "idle g \<longleftrightarrow>
     requests g = 0 \<and> sent g = [] \<and> certs g = 0 \<and> fetches g = [] \<and> enqueued g = [] \<and>
     jobs g = [] \<and> handled g = [] \<and>
     list_all (\<lambda>f. f = FRecv \<or> f = FDone) (fetchers g) \<and>
     list_all (\<lambda>p. p = PRecv \<or> p = PDone) (processers g) \<and>
     (case orch g of OEnqueue rest \<Rightarrow> rest = [] | _ \<Rightarrow> True)"

subsection \<open>Logs and scanners to try the model on\<close>

text \<open>A log that answers every request in full, with entries whose own index is wrong.\<close>

definition leaf_entry :: LogEntry where
  "leaf_entry = \<lparr>Index = 77, Leaf = ''leaf''\<rparr>"

definition full_log :: LogClient where
  "full_log =
     \<lparr>GetEntries = (\<lambda>n a b. Inr (replicate (nat (sint b - sint a + 1)) leaf_entry)),
      GetSTH = (\<lambda>n. Inr \<lparr>STH_TreeSize = 5000, STH_Timestamp = 0\<rparr>)\<rparr>"

text \<open>
  A log that fails every other request, beginning with the first, and else answers with at
  most two entries.
\<close>

definition slow_log :: LogClient where
  "slow_log =
     \<lparr>GetEntries = (\<lambda>n a b. if even n then Inl ''timeout''
                             else Inr (replicate (min 2 (nat (sint b - sint a + 1))) leaf_entry)),
      GetSTH = (\<lambda>n. Inl ''timeout'')\<rparr>"


text \<open>A log that is down.\<close>

definition dead_log :: LogClient where
  "dead_log = \<lparr>GetEntries = (\<lambda>n a b. Inl ''down''), GetSTH = (\<lambda>n. Inl ''down'')\<rparr>"

text \<open>A log whose tree has \<open>2^63\<close> entries.\<close>

definition huge_log :: LogClient where
  "huge_log =
     \<lparr>GetEntries = (\<lambda>n a b. Inl ''down''),
      GetSTH = (\<lambda>n. Inr \<lparr>STH_TreeSize = 9223372036854775808, STH_Timestamp = 0\<rparr>)\<rparr>"

definition demo_scanner :: "LogClient \<Rightarrow> Scanner" where
  "demo_scanner c = NewScanner ''log'' c DefaultScannerOptions"

text \<open>The schedule of a scan of one entry by one fetcher and one processer.\<close>

definition demo_schedule :: "thread list" where
  "demo_schedule =
     [Orchestrator, Orchestrator, Fetcher 0, Fetcher 0, Fetcher 0, Fetcher 0, Fetcher 0,
      Orchestrator, Processer 0, Processer 0, Processer 0, Processer 0, Orchestrator]"

definition no_view :: worker_view where
  "no_view = \<lparr>printed = [], requests = 0, sent = []\<rparr>"

section \<open>Signed 64-bit arithmetic without overflow\<close>

lemma sint_add_int64:
  fixes a b :: int64
  assumes "- (2 ^ 63) \<le> sint a + sint b" "sint a + sint b < 2 ^ 63"
  shows "sint (a + b) = sint a + sint b"
  using assms by (simp add: sint_word_add signed_take_bit_int_eq_self)

lemma sint_sub_int64:
  fixes a b :: int64
  assumes "- (2 ^ 63) \<le> sint a - sint b" "sint a - sint b < 2 ^ 63"
  shows "sint (a - b) = sint a - sint b"
  using assms by (simp add: sint_word_diff signed_take_bit_int_eq_self)

lemma sint_int64_bounds:
  fixes a :: int64
  shows "- (2 ^ 63) \<le> sint a" "sint a < 2 ^ 63"
  using sint_ge [of a] sint_lt [of a] by simp_all

lemma sint_min64: "sint (min64 a b) = min (sint a) (sint b)"
  by (simp add: min64_def word_sless_alt min_def)

lemma sint_word_of_int_int64:
  assumes "- (2 ^ 63) \<le> x" "x < 2 ^ 63"
  shows "sint (word_of_int x :: int64) = x"
  using assms by (simp add: sint_sbintrunc' signed_take_bit_int_eq_self)

lemma sint_mult_int64:
  fixes a b :: int64
  assumes "- (2 ^ 63) \<le> sint a * sint b" "sint a * sint b < 2 ^ 63"
  shows "sint (a * b) = sint a * sint b"
  using assms by (simp add: sint_word_mult signed_take_bit_int_eq_self)

lemma sdiv_nonneg: "0 \<le> k \<Longrightarrow> 0 < l \<Longrightarrow> k sdiv l = k div (l :: int)"
  by (cases "k = 0") (simp_all add: signed_divide_int_def)

lemma smod_nonneg: "0 \<le> k \<Longrightarrow> 0 < l \<Longrightarrow> k smod l = k mod (l :: int)"
  by (cases "k = 0") (simp_all add: signed_modulo_int_def)

lemma sint_go_div:
  assumes "0 \<le> sint a" "0 < sint b"
  shows "sint (go_div a b) = sint a div sint b"
proof -
  have "sint a div sint b \<le> sint a div 1"
    using assms by (intro zdiv_mono2) simp_all
  then have le: "sint a div sint b < 2 ^ 63" using sint_int64_bounds(2) [of a] by simp
  have ge: "- (2 ^ 63) \<le> sint a div sint b"
    using assms pos_imp_zdiv_nonneg_iff [of "sint b" "sint a"] by simp
  show ?thesis
    using assms by (simp add: go_div_def sdiv_nonneg sint_word_of_int_int64 [OF ge le])
qed

lemma sint_go_mod:
  assumes "0 \<le> sint a" "0 < sint b"
  shows "sint (go_mod a b) = sint a mod sint b"
proof -
  have "sint a mod sint b < sint b" using assms by simp
  then have le: "sint a mod sint b < 2 ^ 63" using sint_int64_bounds(2) [of b] by simp
  have "0 \<le> sint a mod sint b" using assms by simp
  then have ge: "- (2 ^ 63) \<le> sint a mod sint b" by simp
  show ?thesis
    using assms by (simp add: go_mod_def smod_nonneg sint_word_of_int_int64 [OF ge le])
qed

section \<open>The partitioning loop\<close>

lemma partition_step:
  assumes "st <s endIndex" "0 <s bs" "sint endIndex + sint bs \<le> 2 ^ 63"
  defines "e \<equiv> min64 (st + bs) endIndex - 1"
  shows "sint e = min (sint st + sint bs) (sint endIndex) - 1"
    and "sint (e + 1) = min (sint st + sint bs) (sint endIndex)"
proof -
  have lt: "sint st < sint endIndex" and pos: "0 < sint bs"
    using assms(1,2) by (simp_all add: word_sless_alt)
  have b: "- (2 ^ 63) \<le> sint st" "sint endIndex < 2 ^ 63"
    using sint_int64_bounds by blast+
  have sum: "sint (st + bs) = sint st + sint bs"
    using lt pos b assms(3) by (intro sint_add_int64) linarith+
  have m: "sint (min64 (st + bs) endIndex) = min (sint st + sint bs) (sint endIndex)"
    by (simp add: sint_min64 sum)
  have one: "sint (1 :: int64) = 1" by simp
  show e: "sint e = min (sint st + sint bs) (sint endIndex) - 1"
    unfolding e_def using lt pos b m
    by (subst sint_sub_int64) (simp_all add: one)
  show "sint (e + 1) = min (sint st + sint bs) (sint endIndex)"
    using lt pos b e
    by (subst sint_add_int64) (simp_all add: one)
qed

lemma partition_loop_tiles:
  assumes "0 <s bs" "sint endIndex + sint bs \<le> 2 ^ 63"
  shows "st <s endIndex \<or> st = endIndex \<Longrightarrow>
         \<exists>rs. partition_loop st endIndex bs acc = Some (acc @ rs) \<and>
              tiles (sint st) (sint endIndex) (sint bs) rs"
proof (induction "nat (sint endIndex - sint st)" arbitrary: st acc rule: less_induct)
  case less
  show ?case
  proof (cases "st <s endIndex")
    case False
    then have "st = endIndex" using less.prems by blast
    then show ?thesis using False
      by (subst partition_loop.simps) simp
  next
    case True
    define e where "e = min64 (st + bs) endIndex - 1"
    have se: "sint e = min (sint st + sint bs) (sint endIndex) - 1"
      and se1: "sint (e + 1) = min (sint st + sint bs) (sint endIndex)"
      using partition_step [OF True assms] unfolding e_def by simp_all
    have lt: "sint st < sint endIndex" and pos: "0 < sint bs"
      using True assms(1) by (simp_all add: word_sless_alt)
    have nxt: "e + 1 <s endIndex \<or> e + 1 = endIndex"
    proof (cases "sint (e + 1) < sint endIndex")
      case True then show ?thesis by (simp add: word_sless_alt)
    next
      case False
      then have "sint (e + 1) = sint endIndex" using se1 by linarith
      then have "e + 1 = endIndex" by (rule signed_word_eqI)
      then show ?thesis by simp
    qed
    have dec: "nat (sint endIndex - sint (e + 1)) < nat (sint endIndex - sint st)"
      using se1 lt pos by linarith
    obtain rs where rs: "partition_loop (e + 1) endIndex bs (acc @ [\<lparr>start = st, end = e\<rparr>])
          = Some ((acc @ [\<lparr>start = st, end = e\<rparr>]) @ rs)"
        and t: "tiles (sint (e + 1)) (sint endIndex) (sint bs) rs"
      using less.hyps [OF dec nxt] by blast
    have "partition_loop st endIndex bs acc = Some (acc @ (\<lparr>start = st, end = e\<rparr> # rs))"
      using True rs by (subst partition_loop.simps) (simp add: e_def Let_def)
    moreover have "tiles (sint st) (sint endIndex) (sint bs) (\<lparr>start = st, end = e\<rparr> # rs)"
      using t se se1 lt pos by (auto simp: min_def)
    ultimately show ?thesis by blast
  qed
qed

lemma tiles_chain:
  "tiles s e b rs \<Longrightarrow> Suc i < length rs \<Longrightarrow> sint (end (rs ! i)) + 1 = sint (start (rs ! Suc i))"
proof (induction rs arbitrary: s i)
  case Nil then show ?case by simp
next
  case (Cons r rs)
  show ?case
  proof (cases i)
    case 0
    then show ?thesis using Cons.prems by (cases rs) auto
  next
    case (Suc j)
    then show ?thesis using Cons.prems Cons.IH [of "sint (end r) + 1" j] by simp
  qed
qed

lemma tiles_last: "tiles s e b rs \<Longrightarrow> rs \<noteq> [] \<Longrightarrow> sint (end (last rs)) = e - 1"
  by (induction rs arbitrary: s) (auto split: if_splits)

lemma tiles_width: "tiles s e b rs \<Longrightarrow> r \<in> set rs \<Longrightarrow>
    sint (start r) \<le> sint (end r) \<and> sint (end r) - sint (start r) + 1 \<le> b"
  by (induction rs arbitrary: s) auto

lemma tiles_le: "tiles s e b rs \<Longrightarrow> s \<le> e"
  by (induction rs arbitrary: s) auto

lemma tiles_cover: "tiles s e b rs \<Longrightarrow> concat (map range_indices rs) = [s .. e - 1]"
proof (induction rs arbitrary: s)
  case Nil then show ?case by simp
next
  case (Cons r rs)
  then have a: "sint (start r) = s" "s \<le> sint (end r)" "sint (end r) < e"
     and t: "tiles (sint (end r) + 1) e b rs" by simp_all
  have "[s .. e - 1] = [s .. sint (end r)] @ [sint (end r) + 1 .. e - 1]"
    using a by (intro upto_split2) simp_all
  then show ?case using Cons.IH [OF t] a by (simp add: range_indices_def)
qed

text \<open>
  C1, as amended. For every \<open>startIndex < endIndex\<close> and \<open>batchSize > 0\<close> for which
  \<open>endIndex - 1 + batchSize\<close> does not exceed the largest \<^verbatim>\<open>int64\<close>, the partitioning loop of
  Scan leaves with a non-empty sequence of ranges: the first starts at \<open>startIndex\<close>, each
  next one starts right after the end of the one before, the last ends at \<open>endIndex - 1\<close>,
  every range is non-empty and at most \<open>batchSize\<close> wide, and the indices of the ranges,
  written out in order, are exactly \<open>startIndex, ..., endIndex - 1\<close>.
\<close>

theorem partition_covers:
  assumes "startIndex <s endIndex" and "0 <s batchSize"
    and "sint endIndex + sint batchSize \<le> 2 ^ 63"
  shows "\<exists>rs. partition startIndex endIndex batchSize = Some rs \<and> rs \<noteq> [] \<and>
           start (hd rs) = startIndex \<and>
           (\<forall>i. Suc i < length rs \<longrightarrow> sint (end (rs ! i)) + 1 = sint (start (rs ! Suc i))) \<and>
           sint (end (last rs)) = sint endIndex - 1 \<and>
           (\<forall>r \<in> set rs. sint (start r) \<le> sint (end r) \<and>
                          sint (end r) - sint (start r) + 1 \<le> sint batchSize) \<and>
           concat (map range_indices rs) = [sint startIndex .. sint endIndex - 1]"
proof -
  obtain rs where p: "partition startIndex endIndex batchSize = Some rs"
    and t: "tiles (sint startIndex) (sint endIndex) (sint batchSize) rs"
    using partition_loop_tiles [OF assms(2,3), of startIndex "[]"] assms(1)
    by (auto simp: partition_def)
  have ne: "rs \<noteq> []"
    using t assms(1) by (cases rs) (auto simp: word_sless_alt)
  have "sint (start (hd rs)) = sint startIndex" using t ne by (cases rs) auto
  then have hd: "start (hd rs) = startIndex" by (rule signed_word_eqI)
  show ?thesis
    using p ne hd tiles_chain [OF t] tiles_last [OF t ne] tiles_width [OF t] tiles_cover [OF t]
    by blast
qed

theorem partition_covers_witness:
  "(0 :: int64) <s 5000 \<and> (0 :: int64) <s 1000 \<and>
   sint (5000 :: int64) + sint (1000 :: int64) \<le> 2 ^ 63 \<and>
   (\<exists>rs. partition 0 5000 1000 = Some rs \<and> rs \<noteq> [] \<and> start (hd rs) = 0 \<and>
      sint (end (last rs)) = 4999 \<and> concat (map range_indices rs) = [0 .. 4999])"
proof -
  have h: "(0 :: int64) <s 5000" "(0 :: int64) <s 1000"
    "sint (5000 :: int64) + sint (1000 :: int64) \<le> 2 ^ 63"
    by (simp_all add: word_sless_alt)
  show ?thesis using partition_covers [OF h] h by auto
qed

text \<open>
  Without the bound the sum \<open>start + batchSize\<close> wraps around. With \<open>startIndex = 1\<close>,
  \<open>endIndex = 2\<close> and the largest batch size the loop yields three ranges, the first of which
  runs from 1 to \<open>2^63 - 1\<close>, far beyond \<open>endIndex - 1 = 1\<close>, and the last of which begins at
  \<open>-1\<close>, below \<open>startIndex\<close>, and holds index 1 once more.
\<close>

theorem partition_overflow_counterexample:
  "(1 :: int64) <s 2 \<and> (0 :: int64) <s 9223372036854775807 \<and>
   partition 1 2 9223372036854775807 =
     Some [\<lparr>start = 1, end = 9223372036854775807\<rparr>,
           \<lparr>start = 9223372036854775808, end = - 2\<rparr>,
           \<lparr>start = - 1, end = 1\<rparr>] \<and>
   sint (end \<lparr>start = 1 :: int64, end = 9223372036854775807 :: int64\<rparr>) = 9223372036854775807 \<and>
   range_indices \<lparr>start = - 1, end = 1\<rparr> = [- 1, 0, 1]"
proof -
  have "range_indices \<lparr>start = - 1, end = 1\<rparr> = [- 1, 0, 1]"
    by (simp add: range_indices_def upto_rec1)
  then show ?thesis
    by (simp add: partition_def partition_loop.simps min64_def word_sless_alt)
qed

text \<open>
  When \<open>startIndex \<ge> endIndex\<close> the loop body never runs, whatever the batch size.
\<close>

lemma partition_empty: "\<not> startIndex <s endIndex \<Longrightarrow> partition startIndex endIndex batchSize = Some []"
  by (simp add: partition_def partition_loop.simps)

section \<open>The fetch worker on one range\<close>

lemma sint_advance:
  assumes "sint (start r) \<le> sint (end r)" "sint (end r) < 2 ^ 63 - 1"
  shows "sint (start (advance r)) = sint (start r) + 1" "end (advance r) = end r"
proof -
  have "sint (start r) + 1 < 2 ^ 63" "- (2 ^ 63) \<le> sint (start r) + 1"
    using assms sint_int64_bounds [of "end r"] sint_int64_bounds [of "start r"] by linarith+
  then show "sint (start (advance r)) = sint (start r) + 1"
    by (simp add: advance_def sint_add_int64)
  show "end (advance r) = end r" by (simp add: advance_def)
qed






lemma fetch_attempt_fail:
  assumes "GetEntries (logClient s) (requests w) (start r) (end r) = Inl err"
  shows "fetch_attempt s r w =
           (False, r, w\<lparr>printed := Warn s (problem_msg err) (Log s (fetching_msg r) (printed w)),
                        requests := Suc (requests w)\<rparr>)"
  using assms by (simp add: fetch_attempt_def)

lemma fetch_range_retry:
  assumes "GetEntries (logClient s) (requests w) (start r) (end r) = Inl err"
  shows "fetch_range s r w =
           fetch_range s r (w\<lparr>printed := Warn s (problem_msg err) (Log s (fetching_msg r) (printed w)),
                             requests := Suc (requests w)\<rparr>)"
  by (subst fetch_range.simps) (simp add: fetch_attempt_fail [OF assms])

lemma fetch_range_never:
  assumes "\<forall>m \<ge> requests w0. \<exists>err. GetEntries (logClient s) m (start r0) (end r0) = Inl err"
  shows "fetch_range s r0 w0 = None"
proof (rule ccontr)
  assume "fetch_range s r0 w0 \<noteq> None"
  then obtain w0' where run: "fetch_range s r0 w0 = Some w0'" by blast
  let ?P = "\<lambda>s0 r (w :: worker_view) (w' :: worker_view). s0 = s \<longrightarrow>
     \<not> (\<forall>m \<ge> requests w. \<exists>err. GetEntries (logClient s) m (start r) (end r) = Inl err)"
  have "?P s r0 w0 w0'"
  proof (rule fetch_range.raw_induct [where P = ?P, OF _ run], intro impI notI)
    fix f s0 r w w'
    assume IH: "\<And>s0 r w w'. f s0 r w = Some w' \<Longrightarrow> ?P s0 r w w'"
      and body0: "(case fetch_attempt s0 r w of
             (success, r', w') \<Rightarrow> if success then Some w' else f s0 r' w') = Some w'"
      and s0: "s0 = s"
      and fails: "\<forall>m \<ge> requests w. \<exists>err. GetEntries (logClient s) m (start r) (end r) = Inl err"
    obtain err where "GetEntries (logClient s) (requests w) (start r) (end r) = Inl err"
      using fails by blast
    note a = fetch_attempt_fail [OF this]
    define w1 where "w1 = w\<lparr>printed := Warn s (problem_msg err) (Log s (fetching_msg r) (printed w)),
                        requests := Suc (requests w)\<rparr>"
    have rec: "f s r w1 = Some w'"
      using body0 unfolding s0 a w1_def by simp
    have "requests w1 = Suc (requests w)" by (simp add: w1_def)
    then have "\<forall>m \<ge> requests w1. \<exists>err. GetEntries (logClient s) m (start r) (end r) = Inl err"
      using fails by simp
    then show False using IH [OF rec] by blast
  qed
  then show False using run assms by blast
qed





section \<open>The steps of a scan, one case each\<close>

lemma orchestrator_step_cases [consumes 1, case_names enq clf clj ret]:
  assumes "orchestrator_step s secs g = Some g'"
  obtains
    (enq) r rest where "orch g = OEnqueue (r # rest)" "length (fetches g) < fetches_cap"
      "g' = g\<lparr>fetches := fetches g @ [r], enqueued := enqueued g @ [r], orch := OEnqueue rest\<rparr>"
  | (clf) "orch g = OEnqueue []" "g' = g\<lparr>fetches_closed := True, orch := OWaitFetchers\<rparr>"
  | (clj) "orch g = OWaitFetchers" "list_all (\<lambda>f. f = FDone) (fetchers g)"
      "g' = g\<lparr>jobs_closed := True, orch := OWaitProcessors\<rparr>"
  | (ret) "orch g = OWaitProcessors" "list_all (\<lambda>p. p = PDone) (processers g)"
      "g' = g\<lparr>printed := Log s (completed_msg (certs g) secs) (printed g), orch := OReturned None\<rparr>"
proof (cases "orch g")
  case (OEnqueue ranges)
  show ?thesis
  proof (cases ranges)
    case Nil
    then have "g' = g\<lparr>fetches_closed := True, orch := OWaitFetchers\<rparr>"
      using assms OEnqueue by (simp add: orchestrator_step_def)
    then show ?thesis using clf OEnqueue Nil by blast
  next
    case (Cons r rest)
    then have "length (fetches g) < fetches_cap \<and>
       g' = g\<lparr>fetches := fetches g @ [r], enqueued := enqueued g @ [r], orch := OEnqueue rest\<rparr>"
      using assms OEnqueue by (simp add: orchestrator_step_def split: if_splits)
    then show ?thesis using enq OEnqueue Cons by blast
  qed
next
  case OWaitFetchers
  then have "list_all (\<lambda>f. f = FDone) (fetchers g) \<and> g' = g\<lparr>jobs_closed := True, orch := OWaitProcessors\<rparr>"
    using assms by (simp add: orchestrator_step_def split: if_splits)
  then show ?thesis using clj OWaitFetchers by blast
next
  case OWaitProcessors
  then have "list_all (\<lambda>p. p = PDone) (processers g) \<and>
      g' = g\<lparr>printed := Log s (completed_msg (certs g) secs) (printed g), orch := OReturned None\<rparr>"
    using assms by (simp add: orchestrator_step_def split: if_splits)
  then show ?thesis using ret OWaitProcessors by blast
next
  case (OReturned err)
  then show ?thesis using assms by (simp add: orchestrator_step_def)
qed

lemma fetcher_step_cases [consumes 1, case_names frecv fexit ffail fgot fsend fpanic fnext]:
  assumes "fetcher_step s i g = Some g'"
  obtains
    (frecv) r rest where "i < length (fetchers g)" "fetchers g ! i = FRecv"
      "fetches g = r # rest"
      "g' = g\<lparr>fetches := rest, fetchers := (fetchers g)[i := FFetch r]\<rparr>"
  | (fexit) "i < length (fetchers g)" "fetchers g ! i = FRecv" "fetches g = []"
      "fetches_closed g"
      "g' = g\<lparr>printed := Log s (finished_msg ''Fetcher'' i) (printed g),
                 fetchers := (fetchers g)[i := FDone]\<rparr>"
  | (ffail) r err where "i < length (fetchers g)" "fetchers g ! i = FFetch r"
      "GetEntries (logClient s) (requests g) (start r) (end r) = Inl err"
      "g' = g\<lparr>printed := Warn s (problem_msg err) (Log s (fetching_msg r) (printed g)),
                 requests := Suc (requests g)\<rparr>"
  | (fgot) r logEntries where "i < length (fetchers g)" "fetchers g ! i = FFetch r"
      "GetEntries (logClient s) (requests g) (start r) (end r) = Inr logEntries"
      "g' = g\<lparr>printed := Log s (fetching_msg r) (printed g), requests := Suc (requests g),
                 fetchers := (fetchers g)[i := FSend r logEntries]\<rparr>"
  | (fsend) r logEntry rest where "i < length (fetchers g)"
      "fetchers g ! i = FSend r (logEntry # rest)" "\<not> jobs_closed g" "length (jobs g) < jobs_cap"
      "g' = g\<lparr>jobs := jobs g @ [reindex logEntry r], sent := sent g @ [reindex logEntry r],
                 fetchers := (fetchers g)[i := FSend (advance r) rest]\<rparr>"
  | (fpanic) r logEntry rest where "i < length (fetchers g)"
      "fetchers g ! i = FSend r (logEntry # rest)" "jobs_closed g" "g' = g\<lparr>panicked := True\<rparr>"
  | (fnext) r where "i < length (fetchers g)" "fetchers g ! i = FSend r []"
      "g' = g\<lparr>fetchers := (fetchers g)[i := (if end r <s start r then FRecv else FFetch r)]\<rparr>"
proof -
  have i: "i < length (fetchers g)"
    using assms by (simp add: fetcher_step_def split: if_splits)
  show ?thesis
  proof (cases "fetchers g ! i")
    case FRecv
    show ?thesis
    proof (cases "fetches g")
      case Nil
      then have "fetches_closed g \<and> g' = g\<lparr>printed := Log s (finished_msg ''Fetcher'' i) (printed g),
                 fetchers := (fetchers g)[i := FDone]\<rparr>"
        using assms i FRecv by (simp add: fetcher_step_def split: if_splits)
      then show ?thesis using fexit i FRecv Nil by blast
    next
      case (Cons r rest)
      then have "g' = g\<lparr>fetches := rest, fetchers := (fetchers g)[i := FFetch r]\<rparr>"
        using assms i FRecv by (simp add: fetcher_step_def)
      then show ?thesis using frecv i FRecv Cons by blast
    qed
  next
    case (FFetch r)
    show ?thesis
    proof (cases "GetEntries (logClient s) (requests g) (start r) (end r)")
      case (Inl err)
      then have "g' = g\<lparr>printed := Warn s (problem_msg err) (Log s (fetching_msg r) (printed g)),
                 requests := Suc (requests g)\<rparr>"
        using assms i FFetch by (auto simp: fetcher_step_def)
      then show ?thesis using ffail i FFetch Inl by blast
    next
      case (Inr logEntries)
      then have "g' = g\<lparr>printed := Log s (fetching_msg r) (printed g), requests := Suc (requests g),
                 fetchers := (fetchers g)[i := FSend r logEntries]\<rparr>"
        using assms i FFetch by (auto simp: fetcher_step_def)
      then show ?thesis using fgot i FFetch Inr by blast
    qed
  next
    case (FSend r logEntries)
    show ?thesis
    proof (cases logEntries)
      case Nil
      then have "g' = g\<lparr>fetchers := (fetchers g)[i := (if end r <s start r then FRecv else FFetch r)]\<rparr>"
        using assms i FSend by (simp add: fetcher_step_def)
      then show ?thesis using fnext i FSend Nil by blast
    next
      case (Cons logEntry rest)
      show ?thesis
      proof (cases "jobs_closed g")
        case True
        then have "g' = g\<lparr>panicked := True\<rparr>"
          using assms i FSend Cons by (simp add: fetcher_step_def)
        then show ?thesis using fpanic i FSend Cons True by blast
      next
        case False
        then have "length (jobs g) < jobs_cap \<and>
            g' = g\<lparr>jobs := jobs g @ [reindex logEntry r], sent := sent g @ [reindex logEntry r],
                 fetchers := (fetchers g)[i := FSend (advance r) rest]\<rparr>"
          using assms i FSend Cons by (simp add: fetcher_step_def split: if_splits)
        then show ?thesis using fsend i FSend Cons False by blast
      qed
    qed
  next
    case FDone
    then show ?thesis using assms i by (simp add: fetcher_step_def)
  qed
qed

lemma processer_step_cases [consumes 1, case_names precv pexit pcount pcall]:
  assumes "processer_step s j g = Some g'"
  obtains
    (precv) entry rest where "j < length (processers g)" "processers g ! j = PRecv"
      "jobs g = entry # rest"
      "g' = g\<lparr>jobs := rest, processers := (processers g)[j := PCount entry]\<rparr>"
  | (pexit) "j < length (processers g)" "processers g ! j = PRecv" "jobs g = []"
      "jobs_closed g"
      "g' = g\<lparr>printed := Log s (finished_msg ''Processor'' j) (printed g),
                 processers := (processers g)[j := PDone]\<rparr>"
  | (pcount) entry where "j < length (processers g)" "processers g ! j = PCount entry"
      "g' = g\<lparr>certs := certs g + 1, processers := (processers g)[j := PCall entry]\<rparr>"
  | (pcall) entry where "j < length (processers g)" "processers g ! j = PCall entry"
      "g' = g\<lparr>handled := handled g @ [entry], processers := (processers g)[j := PRecv]\<rparr>"
proof -
  have j: "j < length (processers g)"
    using assms by (simp add: processer_step_def split: if_splits)
  show ?thesis
  proof (cases "processers g ! j")
    case PRecv
    show ?thesis
    proof (cases "jobs g")
      case Nil
      then have "jobs_closed g \<and> g' = g\<lparr>printed := Log s (finished_msg ''Processor'' j) (printed g),
                 processers := (processers g)[j := PDone]\<rparr>"
        using assms j PRecv by (simp add: processer_step_def split: if_splits)
      then show ?thesis using pexit j PRecv Nil by blast
    next
      case (Cons entry rest)
      then have "g' = g\<lparr>jobs := rest, processers := (processers g)[j := PCount entry]\<rparr>"
        using assms j PRecv by (simp add: processer_step_def)
      then show ?thesis using precv j PRecv Cons by blast
    qed
  next
    case (PCount entry)
    then have "g' = g\<lparr>certs := certs g + 1, processers := (processers g)[j := PCall entry]\<rparr>"
      using assms j by (simp add: processer_step_def)
    then show ?thesis using pcount j PCount by blast
  next
    case (PCall entry)
    then have "g' = g\<lparr>handled := handled g @ [entry], processers := (processers g)[j := PRecv]\<rparr>"
      using assms j by (simp add: processer_step_def)
    then show ?thesis using pcall j PCall by blast
  next
    case PDone
    then show ?thesis using assms j by (simp add: processer_step_def)
  qed
qed


lemma step_cases [consumes 1, case_names enqueue close_fetches close_jobs return
    fetcher_recv fetcher_exit fetcher_fail fetcher_got fetcher_send fetcher_panic fetcher_next
    processer_recv processer_exit processer_count processer_call]:
  assumes "step s g g'"
  obtains
    (enqueue) r rest where "\<not> panicked g" "orch g = OEnqueue (r # rest)"
      "length (fetches g) < fetches_cap"
      "g' = g\<lparr>fetches := fetches g @ [r], enqueued := enqueued g @ [r], orch := OEnqueue rest\<rparr>"
  | (close_fetches) "\<not> panicked g" "orch g = OEnqueue []"
      "g' = g\<lparr>fetches_closed := True, orch := OWaitFetchers\<rparr>"
  | (close_jobs) "\<not> panicked g" "orch g = OWaitFetchers" "list_all (\<lambda>f. f = FDone) (fetchers g)"
      "g' = g\<lparr>jobs_closed := True, orch := OWaitProcessors\<rparr>"
  | (return) secs where "\<not> panicked g" "orch g = OWaitProcessors"
      "list_all (\<lambda>p. p = PDone) (processers g)"
      "g' = g\<lparr>printed := Log s (completed_msg (certs g) secs) (printed g), orch := OReturned None\<rparr>"
  | (fetcher_recv) i r rest where "\<not> panicked g" "i < length (fetchers g)"
      "fetchers g ! i = FRecv" "fetches g = r # rest"
      "g' = g\<lparr>fetches := rest, fetchers := (fetchers g)[i := FFetch r]\<rparr>"
  | (fetcher_exit) i where "\<not> panicked g" "i < length (fetchers g)" "fetchers g ! i = FRecv"
      "fetches g = []" "fetches_closed g"
      "g' = g\<lparr>printed := Log s (finished_msg ''Fetcher'' i) (printed g),
                 fetchers := (fetchers g)[i := FDone]\<rparr>"
  | (fetcher_fail) i r err where "\<not> panicked g" "i < length (fetchers g)"
      "fetchers g ! i = FFetch r"
      "GetEntries (logClient s) (requests g) (start r) (end r) = Inl err"
      "g' = g\<lparr>printed := Warn s (problem_msg err) (Log s (fetching_msg r) (printed g)),
                 requests := Suc (requests g)\<rparr>"
  | (fetcher_got) i r logEntries where "\<not> panicked g" "i < length (fetchers g)"
      "fetchers g ! i = FFetch r"
      "GetEntries (logClient s) (requests g) (start r) (end r) = Inr logEntries"
      "g' = g\<lparr>printed := Log s (fetching_msg r) (printed g), requests := Suc (requests g),
                 fetchers := (fetchers g)[i := FSend r logEntries]\<rparr>"
  | (fetcher_send) i r logEntry rest where "\<not> panicked g" "i < length (fetchers g)"
      "fetchers g ! i = FSend r (logEntry # rest)" "\<not> jobs_closed g" "length (jobs g) < jobs_cap"
      "g' = g\<lparr>jobs := jobs g @ [reindex logEntry r], sent := sent g @ [reindex logEntry r],
                 fetchers := (fetchers g)[i := FSend (advance r) rest]\<rparr>"
  | (fetcher_panic) i r logEntry rest where "\<not> panicked g" "i < length (fetchers g)"
      "fetchers g ! i = FSend r (logEntry # rest)" "jobs_closed g" "g' = g\<lparr>panicked := True\<rparr>"
  | (fetcher_next) i r where "\<not> panicked g" "i < length (fetchers g)"
      "fetchers g ! i = FSend r []"
      "g' = g\<lparr>fetchers := (fetchers g)[i := (if end r <s start r then FRecv else FFetch r)]\<rparr>"
  | (processer_recv) j entry rest where "\<not> panicked g" "j < length (processers g)"
      "processers g ! j = PRecv" "jobs g = entry # rest"
      "g' = g\<lparr>jobs := rest, processers := (processers g)[j := PCount entry]\<rparr>"
  | (processer_exit) j where "\<not> panicked g" "j < length (processers g)"
      "processers g ! j = PRecv" "jobs g = []" "jobs_closed g"
      "g' = g\<lparr>printed := Log s (finished_msg ''Processor'' j) (printed g),
                 processers := (processers g)[j := PDone]\<rparr>"
  | (processer_count) j entry where "\<not> panicked g" "j < length (processers g)"
      "processers g ! j = PCount entry"
      "g' = g\<lparr>certs := certs g + 1, processers := (processers g)[j := PCall entry]\<rparr>"
  | (processer_call) j entry where "\<not> panicked g" "j < length (processers g)"
      "processers g ! j = PCall entry"
      "g' = g\<lparr>handled := handled g @ [entry], processers := (processers g)[j := PRecv]\<rparr>"
proof -
  from assms obtain secs t where ts: "thread_step s secs t g = Some g'"
    by (auto elim: step.cases)
  then have np: "\<not> panicked g" by (simp add: thread_step_def split: if_splits)
  show thesis
  proof (cases t)
    case Orchestrator
    then have "orchestrator_step s secs g = Some g'" using ts np by (simp add: thread_step_def)
    then show thesis
    proof (cases rule: orchestrator_step_cases)
      case (enq r rest) with np show ?thesis by (rule enqueue)
    next
      case clf with np show ?thesis by (rule close_fetches)
    next
      case clj with np show ?thesis by (rule close_jobs)
    next
      case ret with np show ?thesis by (rule return)
    qed
  next
    case (Fetcher i)
    then have "fetcher_step s i g = Some g'" using ts np by (simp add: thread_step_def)
    then show thesis
    proof (cases rule: fetcher_step_cases)
      case (frecv r rest) with np show ?thesis by (rule fetcher_recv)
    next
      case fexit with np show ?thesis by (rule fetcher_exit)
    next
      case (ffail r err) with np show ?thesis by (rule fetcher_fail)
    next
      case (fgot r logEntries) with np show ?thesis by (rule fetcher_got)
    next
      case (fsend r logEntry rest) with np show ?thesis by (rule fetcher_send)
    next
      case (fpanic r logEntry rest) with np show ?thesis by (rule fetcher_panic)
    next
      case (fnext r) with np show ?thesis by (rule fetcher_next)
    qed
  next
    case (Processer j)
    then have "processer_step s j g = Some g'" using ts np by (simp add: thread_step_def)
    then show thesis
    proof (cases rule: processer_step_cases)
      case (precv entry rest) with np show ?thesis by (rule processer_recv)
    next
      case pexit with np show ?thesis by (rule processer_exit)
    next
      case (pcount entry) with np show ?thesis by (rule processer_count)
    next
      case (pcall entry) with np show ?thesis by (rule processer_call)
    qed
  qed
qed

section \<open>The order of the steps, and the counter\<close>

lemma sum_list_map_update:
  fixes f :: "'a \<Rightarrow> 'b :: comm_monoid_add"
  assumes "i < length xs"
  shows "sum_list (map f (xs[i := y])) + f (xs ! i) = sum_list (map f xs) + f y"
  using assms
proof (induction xs arbitrary: i)
  case Nil
  then show ?case by simp
next
  case (Cons x xs)
  show ?case
  proof (cases i)
    case 0
    then show ?thesis by (simp add: ac_simps)
  next
    case (Suc k)
    then have "k < length xs" using Cons.prems by simp
    from Cons.IH [OF this] show ?thesis using Suc
      by (simp add: ac_simps)
  qed
qed

lemma in_set_update: "x \<in> set (xs[i := y]) \<Longrightarrow> x = y \<or> x \<in> set xs"
  using set_update_subset_insert [of xs i y] by auto

lemma list_all_update: "list_all P xs \<Longrightarrow> P y \<Longrightarrow> list_all P (xs[i := y])"
  by (auto simp: list_all_iff dest: in_set_update)

lemma list_all_nth: "list_all P xs \<Longrightarrow> i < length xs \<Longrightarrow> P (xs ! i)"
  by (simp add: list_all_length)

lemma orch_inv_step:
  assumes "step s g g'" and inv: "orch_inv ranges g"
  shows "orch_inv ranges g'"
  using assms(1)
proof (cases rule: step_cases)
  case (enqueue r rest)
  then show ?thesis using inv by (auto simp: orch_inv_def)
next
  case close_fetches
  then show ?thesis using inv by (auto simp: orch_inv_def)
next
  case close_jobs
  then show ?thesis using inv by (auto simp: orch_inv_def)
next
  case (return secs)
  then show ?thesis using inv by (auto simp: orch_inv_def)
next
  case (fetcher_recv i r rest)
  then show ?thesis using inv
    by (auto simp: orch_inv_def list_all_length nth_list_update split: orchestrator.splits dest!: in_set_update)
next
  case (fetcher_exit i)
  then show ?thesis using inv
    by (auto simp: orch_inv_def list_all_length nth_list_update split: orchestrator.splits dest!: in_set_update)
next
  case (fetcher_fail i r err)
  then show ?thesis using inv by (auto simp: orch_inv_def split: orchestrator.splits)
next
  case (fetcher_got i r logEntries)
  then show ?thesis using inv
    by (auto simp: orch_inv_def list_all_length nth_list_update split: orchestrator.splits dest!: in_set_update)
next
  case (fetcher_send i r logEntry rest)
  then show ?thesis using inv
    by (auto simp: orch_inv_def list_all_length nth_list_update split: orchestrator.splits dest!: in_set_update)
next
  case (fetcher_panic i r logEntry rest)
  then show ?thesis using inv
    by (auto simp: orch_inv_def list_all_length split: orchestrator.splits)
next
  case (fetcher_next i r)
  then show ?thesis using inv
    by (auto simp: orch_inv_def list_all_length nth_list_update split: orchestrator.splits if_splits dest!: in_set_update)
next
  case (processer_recv j entry rest)
  then show ?thesis using inv
    by (auto simp: orch_inv_def list_all_length nth_list_update split: orchestrator.splits dest!: in_set_update)
next
  case (processer_exit j)
  then show ?thesis using inv
    by (auto simp: orch_inv_def list_all_length nth_list_update split: orchestrator.splits dest!: in_set_update)
next
  case (processer_count j entry)
  then show ?thesis using inv
    by (auto simp: orch_inv_def list_all_length nth_list_update split: orchestrator.splits dest!: in_set_update)
next
  case (processer_call j entry)
  then show ?thesis using inv
    by (auto simp: orch_inv_def list_all_length nth_list_update split: orchestrator.splits dest!: in_set_update)
qed


lemma orch_inv_init:
  assumes "scan_init s a b = Some g0" and "partition a b (BatchSize (opts s)) = Some ranges"
  shows "orch_inv ranges g0"
  using assms by (auto simp: scan_init_def orch_inv_def)

lemma reachable_induct [consumes 1, case_names init step]:
  assumes "reachable s a b g"
    and "\<And>g0. scan_init s a b = Some g0 \<Longrightarrow> P g0"
    and "\<And>g g'. reachable s a b g \<Longrightarrow> P g \<Longrightarrow> step s g g' \<Longrightarrow> P g'"
  shows "P g"
proof -
  obtain g0 where g0: "scan_init s a b = Some g0" and run: "(step s)\<^sup>*\<^sup>* g0 g"
    using assms(1) by (auto simp: reachable_def split: option.splits)
  from run show ?thesis
  proof (induction rule: rtranclp_induct)
    case base
    then show ?case using assms(2) g0 by blast
  next
    case (step y z)
    have "reachable s a b y" using g0 step.hyps(1) by (simp add: reachable_def)
    then show ?case using assms(3) step by blast
  qed
qed

lemma reachable_partition:
  assumes "reachable s a b g"
  obtains ranges where "partition a b (BatchSize (opts s)) = Some ranges"
  using assms by (auto simp: reachable_def scan_init_def split: option.splits)

lemma reachable_orch_inv:
  assumes "reachable s a b g" and "partition a b (BatchSize (opts s)) = Some ranges"
  shows "orch_inv ranges g"
  using assms(1)
proof (induction rule: reachable_induct)
  case (init g0)
  then show ?case using assms(2) by (rule orch_inv_init)
next
  case (step g g')
  then show ?case using orch_inv_step by blast
qed

lemma count_inv_step:
  assumes "step s g g'" and inv: "count_inv g"
  shows "count_inv g'"
  using assms(1)
proof (cases rule: step_cases)
  case (processer_recv j entry rest)
  then show ?thesis
    using inv sum_list_map_update [of j "processers g" counted "PCount entry"]
    by (simp add: count_inv_def)
next
  case (processer_exit j)
  then show ?thesis
    using inv sum_list_map_update [of j "processers g" counted PDone]
    by (simp add: count_inv_def)
next
  case (processer_count j entry)
  then show ?thesis
    using inv sum_list_map_update [of j "processers g" counted "PCall entry"]
    by (simp add: count_inv_def)
next
  case (processer_call j entry)
  then have "sum_list (map counted (processers g)) =
      Suc (sum_list (map counted ((processers g)[j := PRecv])))"
    using sum_list_map_update [of j "processers g" counted PRecv] by simp
  then show ?thesis
    using inv processer_call by (simp add: count_inv_def)
qed (simp_all add: count_inv_def inv [unfolded count_inv_def])

lemma count_inv_init: "scan_init s a b = Some g0 \<Longrightarrow> count_inv g0"
  by (auto simp: scan_init_def count_inv_def sum_list_replicate split: option.splits)

section \<open>Where the indices are\<close>

lemma range_indices_advance:
  assumes "sint (start r) \<le> sint (end r)" "sint (end r) < 2 ^ 63 - 1"
  shows "range_indices r = sint (start r) # range_indices (advance r)"
  using sint_advance [OF assms] assms(1)
  by (simp add: range_indices_def upto_rec1)

lemma range_indices_empty: "end r <s start r \<Longrightarrow> range_indices r = []"
  by (simp add: range_indices_def word_sless_alt)

lemma remaining_advance:
  assumes "sint (start r) \<le> sint (end r)" "sint (end r) < 2 ^ 63 - 1"
  shows "remaining r = Suc (remaining (advance r))"
  using sint_advance [OF assms] assms(1) by (simp add: remaining_def)

lemma flow_inv_step:
  assumes "step s g g'" and inv: "flow_inv todo g"
    and c: "never_more_than_requested (logClient s)"
  shows "flow_inv todo g'"
proof -
  from inv have sum: "in_flight g + delivered g = todo"
    and oo: "orch_ok (orch g)" and qo: "list_all range_ok (fetches g)"
    and fo: "list_all fetcher_ok (fetchers g)"
    by (simp_all add: flow_inv_def)
  from assms(1) show ?thesis
  proof (cases rule: step_cases)
    case (enqueue r rest)
    then show ?thesis using sum oo qo fo
      by (simp add: flow_inv_def in_flight_def delivered_def ac_simps)
  next
    case close_fetches
    then show ?thesis using sum oo qo fo
      by (simp add: flow_inv_def in_flight_def delivered_def)
  next
    case close_jobs
    then show ?thesis using sum oo qo fo
      by (simp add: flow_inv_def in_flight_def delivered_def)
  next
    case (return secs)
    then show ?thesis using sum oo qo fo
      by (simp add: flow_inv_def in_flight_def delivered_def)
  next
    case (fetcher_recv i r rest)
    have "sum_list (map fetcher_holds ((fetchers g)[i := FFetch r])) =
        sum_list (map fetcher_holds (fetchers g)) + mset (range_indices r)"
      using sum_list_map_update [of i "fetchers g" fetcher_holds "FFetch r"] fetcher_recv by simp
    moreover have "list_all fetcher_ok ((fetchers g)[i := FFetch r])"
      using fo qo fetcher_recv by (intro list_all_update) simp_all
    ultimately show ?thesis using sum oo qo fetcher_recv
      by (simp add: flow_inv_def in_flight_def delivered_def ac_simps)
  next
    case (fetcher_exit i)
    have "sum_list (map fetcher_holds ((fetchers g)[i := FDone])) =
        sum_list (map fetcher_holds (fetchers g))"
      using sum_list_map_update [of i "fetchers g" fetcher_holds FDone] fetcher_exit by simp
    moreover have "list_all fetcher_ok ((fetchers g)[i := FDone])"
      using fo by (intro list_all_update) simp_all
    ultimately show ?thesis using sum oo qo fetcher_exit
      by (simp add: flow_inv_def in_flight_def delivered_def)
  next
    case (fetcher_fail i r err)
    then show ?thesis using sum oo qo fo
      by (simp add: flow_inv_def in_flight_def delivered_def)
  next
    case (fetcher_got i r logEntries)
    have ok: "range_ok r"
      using list_all_nth [OF fo fetcher_got(2)] fetcher_got(3) by simp
    have "start r \<le>s end r" using ok by (simp add: range_ok_def word_sle_eq)
    then have len: "int (length logEntries) \<le> sint (end r) - sint (start r) + 1"
      using c fetcher_got(4) unfolding never_more_than_requested_def by blast
    have "sum_list (map fetcher_holds ((fetchers g)[i := FSend r logEntries])) =
        sum_list (map fetcher_holds (fetchers g))"
      using sum_list_map_update [of i "fetchers g" fetcher_holds "FSend r logEntries"] fetcher_got
      by simp
    moreover have "list_all fetcher_ok ((fetchers g)[i := FSend r logEntries])"
      using fo len ok by (intro list_all_update) (simp_all add: range_ok_def)
    ultimately show ?thesis using sum oo qo fetcher_got
      by (simp add: flow_inv_def in_flight_def delivered_def)
  next
    case (fetcher_send i r logEntry rest)
    have ok: "sint (end r) < 2 ^ 63 - 1"
      "int (length (logEntry # rest)) \<le> sint (end r) - sint (start r) + 1"
      using list_all_nth [OF fo fetcher_send(2)] fetcher_send(3) by simp_all
    then have le: "sint (start r) \<le> sint (end r)" by simp
    note adv = sint_advance [OF le ok(1)]
    have "sum_list (map fetcher_holds ((fetchers g)[i := FSend (advance r) rest])) +
        mset (range_indices r) =
        sum_list (map fetcher_holds (fetchers g)) + mset (range_indices (advance r))"
      using sum_list_map_update [of i "fetchers g" fetcher_holds "FSend (advance r) rest"]
        fetcher_send by simp
    then have "sum_list (map fetcher_holds ((fetchers g)[i := FSend (advance r) rest])) +
        {#sint (start r)#} = sum_list (map fetcher_holds (fetchers g))"
      by (simp add: range_indices_advance [OF le ok(1)])
    then have "in_flight g' = in_flight g"
      using fetcher_send
      by (simp add: in_flight_def entry_index_def reindex_def ac_simps)
    moreover have "list_all fetcher_ok ((fetchers g)[i := FSend (advance r) rest])"
      using fo ok adv by (intro list_all_update) simp_all
    ultimately show ?thesis using sum oo qo fetcher_send
      by (simp add: flow_inv_def delivered_def)
  next
    case (fetcher_panic i r logEntry rest)
    then show ?thesis using sum oo qo fo
      by (simp add: flow_inv_def in_flight_def delivered_def)
  next
    case (fetcher_next i r)
    have ok: "sint (end r) < 2 ^ 63 - 1"
      using list_all_nth [OF fo fetcher_next(2)] fetcher_next(3) by simp
    let ?f = "if end r <s start r then FRecv else FFetch r"
    have "fetcher_holds ?f = mset (range_indices r)"
      by (simp add: range_indices_empty)
    then have "sum_list (map fetcher_holds ((fetchers g)[i := ?f])) =
        sum_list (map fetcher_holds (fetchers g))"
      using sum_list_map_update [of i "fetchers g" fetcher_holds ?f] fetcher_next by simp
    moreover have "fetcher_ok ?f" using ok by (simp add: range_ok_def word_sless_alt)
    then have "list_all fetcher_ok ((fetchers g)[i := ?f])"
      using fo by (intro list_all_update)
    ultimately show ?thesis using sum oo qo fetcher_next
      by (simp add: flow_inv_def in_flight_def delivered_def)
  next
    case (processer_recv j entry rest)
    have "sum_list (map processer_holds ((processers g)[j := PCount entry])) =
        sum_list (map processer_holds (processers g)) + {#entry_index entry#}"
      using sum_list_map_update [of j "processers g" processer_holds "PCount entry"]
        processer_recv by simp
    then show ?thesis using sum oo qo fo processer_recv
      by (simp add: flow_inv_def in_flight_def delivered_def ac_simps)
  next
    case (processer_exit j)
    have "sum_list (map processer_holds ((processers g)[j := PDone])) =
        sum_list (map processer_holds (processers g))"
      using sum_list_map_update [of j "processers g" processer_holds PDone]
        processer_exit by simp
    then show ?thesis using sum oo qo fo processer_exit
      by (simp add: flow_inv_def in_flight_def delivered_def)
  next
    case (processer_count j entry)
    have "sum_list (map processer_holds ((processers g)[j := PCall entry])) =
        sum_list (map processer_holds (processers g))"
      using sum_list_map_update [of j "processers g" processer_holds "PCall entry"]
        processer_count by simp
    then show ?thesis using sum oo qo fo processer_count
      by (simp add: flow_inv_def in_flight_def delivered_def)
  next
    case (processer_call j entry)
    have "sum_list (map processer_holds ((processers g)[j := PRecv])) + {#entry_index entry#} =
        sum_list (map processer_holds (processers g))"
      using sum_list_map_update [of j "processers g" processer_holds PRecv]
        processer_call by simp
    then have "in_flight g' + delivered g' = in_flight g + delivered g"
      using processer_call
      by (simp add: in_flight_def delivered_def ac_simps)
    then show ?thesis using sum oo qo fo processer_call
      by (simp add: flow_inv_def)
  qed
qed


lemma tiles_range_ok:
  "tiles x y bs rs \<Longrightarrow> y \<le> 2 ^ 63 - 1 \<Longrightarrow> list_all range_ok rs"
  by (induction rs arbitrary: x) (auto simp: range_ok_def)

lemma flow_inv_init:
  assumes "scan_init s a b = Some g0" and "partition a b (BatchSize (opts s)) = Some ranges"
    and "list_all range_ok ranges"
  shows "flow_inv (mset (concat (map range_indices ranges))) g0"
proof -
  have "sum_list (replicate n {#}) = ({#} :: int multiset)" for n
    by (induction n) simp_all
  then show ?thesis
    using assms
    by (auto simp: scan_init_def flow_inv_def in_flight_def delivered_def list_all_length)
qed

lemma reachable_flow_inv:
  assumes "reachable s a b g" and "partition a b (BatchSize (opts s)) = Some ranges"
    and "list_all range_ok ranges" and "never_more_than_requested (logClient s)"
  shows "flow_inv (mset (concat (map range_indices ranges))) g"
  using assms(1)
proof (induction rule: reachable_induct)
  case (init g0)
  then show ?case using assms(2,3) by (rule flow_inv_init)
next
  case (step g g')
  then show ?case using flow_inv_step assms(4) by blast
qed

lemma reachable_count_inv: "reachable s a b g \<Longrightarrow> count_inv g"
proof (induction rule: reachable_induct)
  case (init g0)
  then show ?case by (rule count_inv_init)
next
  case (step g g')
  then show ?case using count_inv_step by blast
qed

text \<open>When Scan has returned and both pools had a worker, nothing is left in flight.\<close>

lemma returned_nothing_in_flight:
  assumes inv: "orch_inv ranges g" and ret: "orch g = OReturned err"
    and f: "fetchers g \<noteq> []" and p: "processers g \<noteq> []"
  shows "in_flight g = {#}" "sum_list (map counted (processers g)) = 0"
proof -
  have af: "list_all (\<lambda>f. f = FDone) (fetchers g)" and ap: "list_all (\<lambda>p. p = PDone) (processers g)"
    using inv ret by (simp_all add: orch_inv_def)
  have "FDone \<in> set (fetchers g)" using af f by (cases "fetchers g") simp_all
  then have q: "fetches g = []" using inv by (simp add: orch_inv_def)
  have "PDone \<in> set (processers g)" using ap p by (cases "processers g") simp_all
  then have j: "jobs g = []" using inv by (simp add: orch_inv_def)
  have 1: "sum_list (map fetcher_holds fs) = {#}" if "list_all (\<lambda>f. f = FDone) fs" for fs
    using that by (induction fs) simp_all
  have 2: "sum_list (map processer_holds ps) = {#}" if "list_all (\<lambda>p. p = PDone) ps" for ps
    using that by (induction ps) simp_all
  have 3: "sum_list (map counted ps) = 0" if "list_all (\<lambda>p. p = PDone) ps" for ps
    using that by (induction ps) simp_all
  show "in_flight g = {#}"
    using ret q j 1 [OF af] 2 [OF ap] by (simp add: in_flight_def)
  show "sum_list (map counted (processers g)) = 0" by (rule 3 [OF ap])
qed

section \<open>Every scan comes to an end\<close>

lemma remaining_empty: "end r <s start r \<Longrightarrow> remaining r = 0"
  by (simp add: remaining_def word_sless_alt)

lemma steps_left_step:
  assumes "step s g g'" and flow: "flow_inv todo g" and ord: "orch_inv ranges g"
    and ans: "answered s g"
  shows "steps_left g' < steps_left g"
proof -
  from flow have fo: "list_all fetcher_ok (fetchers g)" by (simp add: flow_inv_def)
  from assms(1) show ?thesis
  proof (cases rule: step_cases)
    case (enqueue r rest)
    then show ?thesis by (simp add: steps_left_def)
  next
    case close_fetches
    then show ?thesis by (simp add: steps_left_def)
  next
    case close_jobs
    then show ?thesis by (simp add: steps_left_def)
  next
    case (return secs)
    then show ?thesis by (simp add: steps_left_def)
  next
    case (fetcher_recv i r rest)
    then show ?thesis
      using sum_list_map_update [of i "fetchers g" fetcher_cost "FFetch r"]
      by (simp add: steps_left_def)
  next
    case (fetcher_exit i)
    then show ?thesis
      using sum_list_map_update [of i "fetchers g" fetcher_cost FDone]
      by (simp add: steps_left_def)
  next
    case (fetcher_fail i r err)
    have "FFetch r \<in> set (fetchers g)" using fetcher_fail(2,3) nth_mem by fastforce
    then have False using ans fetcher_fail(4) unfolding answered_def by fastforce
    then show ?thesis ..
  next
    case (fetcher_got i r logEntries)
    have "FFetch r \<in> set (fetchers g)" using fetcher_got(2,3) nth_mem by fastforce
    then have "logEntries \<noteq> []" using ans fetcher_got(4) unfolding answered_def by fastforce
    then have "0 < length logEntries" by simp
    then have "6 * remaining r + 3 - 2 * length logEntries < 6 * remaining r + 2" by linarith
    then have "fetcher_cost (FSend r logEntries) < fetcher_cost (FFetch r)" by simp
    then have "sum_list (map fetcher_cost ((fetchers g)[i := FSend r logEntries]))
        < sum_list (map fetcher_cost (fetchers g))"
      using sum_list_map_update [of i "fetchers g" fetcher_cost "FSend r logEntries"]
        fetcher_got(2,3) by simp
    then show ?thesis using fetcher_got by (simp add: steps_left_def)
  next
    case (fetcher_send i r logEntry rest)
    have ok: "sint (end r) < 2 ^ 63 - 1"
      "int (length (logEntry # rest)) \<le> sint (end r) - sint (start r) + 1"
      using list_all_nth [OF fo fetcher_send(2)] fetcher_send(3) by simp_all
    then have le: "sint (start r) \<le> sint (end r)" by simp
    have k: "remaining r = Suc (remaining (advance r))" by (rule remaining_advance [OF le ok(1)])
    have "length rest \<le> remaining (advance r)"
      using ok(2) sint_advance [OF le ok(1)] by (simp add: remaining_def)
    then show ?thesis
      using sum_list_map_update [of i "fetchers g" fetcher_cost "FSend (advance r) rest"]
        fetcher_send k
      by (simp add: steps_left_def)
  next
    case (fetcher_panic i r logEntry rest)
    have "list_all (\<lambda>f. f = FDone) (fetchers g)"
      using ord fetcher_panic(4) by (auto simp: orch_inv_def split: orchestrator.splits)
    then have False using list_all_nth fetcher_panic(2,3) by fastforce
    then show ?thesis ..
  next
    case (fetcher_next i r)
    let ?f = "if end r <s start r then FRecv else FFetch r"
    have "fetcher_cost ?f < fetcher_cost (FSend r [])"
      by (simp add: remaining_empty)
    then show ?thesis
      using sum_list_map_update [of i "fetchers g" fetcher_cost ?f] fetcher_next
      by (simp add: steps_left_def)
  next
    case (processer_recv j entry rest)
    then show ?thesis
      using sum_list_map_update [of j "processers g" processer_cost "PCount entry"]
      by (simp add: steps_left_def)
  next
    case (processer_exit j)
    then show ?thesis
      using sum_list_map_update [of j "processers g" processer_cost PDone]
      by (simp add: steps_left_def)
  next
    case (processer_count j entry)
    then show ?thesis
      using sum_list_map_update [of j "processers g" processer_cost "PCall entry"]
      by (simp add: steps_left_def)
  next
    case (processer_call j entry)
    then show ?thesis
      using sum_list_map_update [of j "processers g" processer_cost PRecv]
      by (simp add: steps_left_def)
  qed
qed


lemma step_lengths:
  assumes "step s g g'"
  shows "length (fetchers g') = length (fetchers g) \<and> length (processers g') = length (processers g)"
  using assms by (cases rule: step_cases) simp_all

lemma reachable_lengths:
  assumes "reachable s a b g"
  shows "length (fetchers g) = nat (sint (ParallelFetch (opts s))) \<and>
         length (processers g) = nat (sint (NumWorkers (opts s)))"
  using assms
proof (induction rule: reachable_induct)
  case (init g0)
  then show ?case by (auto simp: scan_init_def split: option.splits)
next
  case (step g g')
  then show ?case using step_lengths by simp
qed

lemma processer_can_move:
  assumes np: "\<not> panicked g" and j: "j < length (processers g)"
    and "processers g ! j \<noteq> PDone"
    and "processers g ! j = PRecv \<longrightarrow> jobs g \<noteq> [] \<or> jobs_closed g"
  shows "\<exists>g'. step s g g'"
proof -
  have "processer_step s j g \<noteq> None"
    using assms by (auto simp: processer_step_def split: processer.splits list.splits)
  then obtain g' where "thread_step s 0 (Processer j) g = Some g'"
    using np by (auto simp: thread_step_def)
  then show ?thesis using step.intros by blast
qed

lemma fetcher_can_move:
  assumes ord: "orch_inv ranges g" and i: "i < length (fetchers g)"
    and nd: "fetchers g ! i \<noteq> FDone"
    and recv: "fetchers g ! i = FRecv \<longrightarrow> fetches g \<noteq> [] \<or> fetches_closed g"
    and room: "length (jobs g) < jobs_cap \<or> processers g \<noteq> []"
  shows "\<exists>g'. step s g g'"
proof -
  have np: "\<not> panicked g" using ord by (simp add: orch_inv_def)
  have "\<not> list_all (\<lambda>f. f = FDone) (fetchers g)"
    using i nd list_all_nth by fastforce
  then have open_jobs: "\<not> jobs_closed g"
    using ord by (auto simp: orch_inv_def split: orchestrator.splits)
  show ?thesis
  proof (cases "\<exists>r e es. fetchers g ! i = FSend r (e # es) \<and> \<not> length (jobs g) < jobs_cap")
    case False
    then have "fetcher_step s i g \<noteq> None"
      using i nd recv open_jobs
      by (auto simp: fetcher_step_def Let_def split: fetcher.splits list.splits sum.splits)
    then obtain g' where "thread_step s 0 (Fetcher i) g = Some g'"
      using np by (auto simp: thread_step_def)
    then show ?thesis using step.intros by blast
  next
    case True
    then have full: "jobs g \<noteq> []" by (auto simp: jobs_cap_def)
    have p: "processers g \<noteq> []" using True room by blast
    then have 0: "0 < length (processers g)" by simp
    have "PDone \<notin> set (processers g)" using ord open_jobs by (auto simp: orch_inv_def)
    then have "processers g ! 0 \<noteq> PDone" using 0 nth_mem by fastforce
    then show ?thesis using processer_can_move [OF np 0] full by blast
  qed
qed

lemma never_stuck:
  assumes ord: "orch_inv ranges g"
    and f: "length (fetches g) < fetches_cap \<or> fetchers g \<noteq> []"
    and p: "length (jobs g) < jobs_cap \<or> processers g \<noteq> []"
  shows "(\<exists>err. orch g = OReturned err) \<or> (\<exists>g'. step s g g')"
proof -
  have np: "\<not> panicked g" using ord by (simp add: orch_inv_def)
  have orch_moves: "\<exists>g'. step s g g'" if "orchestrator_step s 0 g \<noteq> None"
  proof -
    from that obtain g' where "thread_step s 0 Orchestrator g = Some g'"
      using np by (auto simp: thread_step_def)
    then show ?thesis using step.intros by blast
  qed
  show ?thesis
  proof (cases "orch g")
    case (OEnqueue rest)
    show ?thesis
    proof (cases "rest = [] \<or> length (fetches g) < fetches_cap")
      case True
      then have "orchestrator_step s 0 g \<noteq> None"
        using OEnqueue by (auto simp: orchestrator_step_def split: list.splits)
      then show ?thesis using orch_moves by blast
    next
      case False
      then have q: "fetches g \<noteq> []" by (auto simp: fetches_cap_def)
      have "fetchers g \<noteq> []" using False f by blast
      then have 0: "0 < length (fetchers g)" by simp
      have "FDone \<notin> set (fetchers g)" using ord OEnqueue by (auto simp: orch_inv_def)
      then have "fetchers g ! 0 \<noteq> FDone" using 0 nth_mem by fastforce
      then show ?thesis using fetcher_can_move [OF ord 0 _ _ p] q by blast
    qed
  next
    case OWaitFetchers
    show ?thesis
    proof (cases "list_all (\<lambda>f. f = FDone) (fetchers g)")
      case True
      then have "orchestrator_step s 0 g \<noteq> None"
        using OWaitFetchers by (simp add: orchestrator_step_def)
      then show ?thesis using orch_moves by blast
    next
      case False
      then obtain i where i: "i < length (fetchers g)" "fetchers g ! i \<noteq> FDone"
        by (auto simp: list_all_length)
      have "fetches_closed g" using ord OWaitFetchers by (simp add: orch_inv_def)
      then show ?thesis using fetcher_can_move [OF ord i _ p] by blast
    qed
  next
    case OWaitProcessors
    show ?thesis
    proof (cases "list_all (\<lambda>p. p = PDone) (processers g)")
      case True
      then have "orchestrator_step s 0 g \<noteq> None"
        using OWaitProcessors by (simp add: orchestrator_step_def)
      then show ?thesis using orch_moves by blast
    next
      case False
      then obtain j where j: "j < length (processers g)" "processers g ! j \<noteq> PDone"
        by (auto simp: list_all_length)
      have "jobs_closed g" using ord OWaitProcessors by (simp add: orch_inv_def)
      then show ?thesis using processer_can_move [OF np j] by blast
    qed
  next
    case (OReturned err)
    then show ?thesis by blast
  qed
qed

text \<open>
  A set of states that the steps do not leave, on which every step lowers \<open>steps_left\<close> and
  some step is possible until Scan has returned: every run from there is finite, and
  some run returns.
\<close>

lemma finite_runs:
  assumes dec: "\<And>g g'. I g \<Longrightarrow> step s g g' \<Longrightarrow> I g' \<and> steps_left g' < steps_left g"
    and "I (f 0)"
  shows "\<not> (\<forall>i. step s (f i) (f (Suc i)))"
proof
  assume run: "\<forall>i. step s (f i) (f (Suc i))"
  have "I (f i) \<and> steps_left (f i) + i \<le> steps_left (f 0)" for i
  proof (induction i)
    case 0
    then show ?case using assms(2) by simp
  next
    case (Suc i)
    then show ?case using dec [of "f i" "f (Suc i)"] run by fastforce
  qed
  from this [of "Suc (steps_left (f 0))"] show False by simp
qed

lemma some_run_returns:
  assumes dec: "\<And>g g'. I g \<Longrightarrow> step s g g' \<Longrightarrow> I g' \<and> steps_left g' < steps_left g"
    and live: "\<And>g. I g \<Longrightarrow> (\<exists>err. orch g = OReturned err) \<or> (\<exists>g'. step s g g')"
  shows "I g \<Longrightarrow> \<exists>g' err. (step s)\<^sup>*\<^sup>* g g' \<and> orch g' = OReturned err"
proof (induction "steps_left g" arbitrary: g rule: less_induct)
  case less
  show ?case
  proof (cases "\<exists>err. orch g = OReturned err")
    case True
    then show ?thesis by blast
  next
    case False
    then obtain g1 where g1: "step s g g1" using live [OF less.prems] by blast
    then have "I g1" "steps_left g1 < steps_left g" using dec [OF less.prems g1] by simp_all
    then obtain g' err where "(step s)\<^sup>*\<^sup>* g1 g'" "orch g' = OReturned err"
      using less.hyps by blast
    then show ?thesis using g1 by (meson converse_rtranclp_into_rtranclp)
  qed
qed

lemma reachable_step: "reachable s a b g \<Longrightarrow> step s g g' \<Longrightarrow> reachable s a b g'"
  by (auto simp: reachable_def split: option.splits)

lemma reachable_steps: "reachable s a b g \<Longrightarrow> (step s)\<^sup>*\<^sup>* g g' \<Longrightarrow> reachable s a b g'"
  by (auto simp: reachable_def split: option.splits)

lemma reachable_init: "scan_init s a b = Some g0 \<Longrightarrow> reachable s a b g0"
  by (simp add: reachable_def)

section \<open>humanTime\<close>

lemma sint_time_units:
  "sint Second = 1000000000" "sint Minute = 60 * 1000000000" "sint Hour = 3600 * 1000000000"
  by (simp_all add: Second_def Minute_def Hour_def)

lemma time_component_pos:
  "0 \<le> v \<Longrightarrow> (if 0 < v then s @ sprintf_d v @ u else s) = s @ time_component v u"
  by (simp add: time_component_def)

lemma humanTime_parts:
  assumes "0 \<le> sint seconds" "sint seconds \<le> 9223372036"
  defines "nanos \<equiv> seconds * Second"
  shows "sint (go_div nanos Hour) = sint seconds div 3600"
    and "sint (go_div (go_mod nanos Hour) Minute) = (sint seconds mod 3600) div 60"
    and "sint (go_div (go_mod (go_mod nanos Hour) Minute) Second) = sint seconds mod 60"
proof -
  let ?s = "sint seconds"
  let ?c = "1000000000 :: int"
  have u: "sint Second = ?c" "sint Minute = 60 * ?c" "sint Hour = 3600 * ?c"
    by (simp_all add: sint_time_units)
  have upos: "0 < sint Second" "0 < sint Minute" "0 < sint Hour"
    by (simp_all add: sint_time_units)
  have n: "sint nanos = ?s * ?c"
    unfolding nanos_def using assms(1,2)
    by (subst sint_mult_int64) (simp_all add: sint_time_units)
  have n0: "0 \<le> sint nanos" using n assms(1) by simp
  have "sint (go_div nanos Hour) = (?s * ?c) div (3600 * ?c)"
    by (simp only: sint_go_div [OF n0 upos(3)] n u)
  also have "\<dots> = ?s div 3600" by (rule div_mult_mult2) simp
  finally show "sint (go_div nanos Hour) = ?s div 3600" .
  have "sint (go_mod nanos Hour) = (?s * ?c) mod (3600 * ?c)"
    by (simp only: sint_go_mod [OF n0 upos(3)] n u)
  also have "\<dots> = (?s mod 3600) * ?c" by (rule mult_mod_left [symmetric])
  finally have m: "sint (go_mod nanos Hour) = (?s mod 3600) * ?c" .
  have m0: "0 \<le> sint (go_mod nanos Hour)" unfolding m by simp
  have "sint (go_div (go_mod nanos Hour) Minute) = ((?s mod 3600) * ?c) div (60 * ?c)"
    by (simp only: sint_go_div [OF m0 upos(2)] m u)
  also have "\<dots> = (?s mod 3600) div 60" by (rule div_mult_mult2) simp
  finally show "sint (go_div (go_mod nanos Hour) Minute) = (?s mod 3600) div 60" .
  have "sint (go_mod (go_mod nanos Hour) Minute) = ((?s mod 3600) * ?c) mod (60 * ?c)"
    by (simp only: sint_go_mod [OF m0 upos(2)] m u)
  also have "\<dots> = ((?s mod 3600) mod 60) * ?c" by (rule mult_mod_left [symmetric])
  also have "(?s mod 3600) mod 60 = ?s mod 60" by (rule mod_mod_cancel) simp
  finally have k: "sint (go_mod (go_mod nanos Hour) Minute) = (?s mod 60) * ?c" .
  have k0: "0 \<le> sint (go_mod (go_mod nanos Hour) Minute)" unfolding k by simp
  have "sint (go_div (go_mod (go_mod nanos Hour) Minute) Second) = ((?s mod 60) * ?c) div ?c"
    by (simp only: sint_go_div [OF k0 upos(1)] k u)
  also have "\<dots> = ?s mod 60" by simp
  finally show "sint (go_div (go_mod (go_mod nanos Hour) Minute) Second) = ?s mod 60" .
qed

lemma time_components:
  assumes "0 \<le> h" "0 \<le> m" "0 \<le> k"
  shows "(let s = [];
              s = (if 0 < h then s @ sprintf_d h @ uh else s);
              s = (if 0 < m then s @ sprintf_d m @ um else s);
              s = (if 0 < k then s @ sprintf_d k @ uk else s)
          in s) = time_component h uh @ time_component m um @ time_component k uk"
  using assms by (auto simp: time_component_def Let_def)

lemma humanTime_small:
  assumes "0 \<le> sint seconds" "sint seconds \<le> 9223372036"
  shows "humanTime seconds = humanTime_spec (sint seconds)"
proof -
  note p = humanTime_parts [OF assms]
  have h: "0 \<le> sint seconds div 3600" using assms(1) by (simp add: pos_imp_zdiv_nonneg_iff)
  have m: "0 \<le> (sint seconds mod 3600) div 60" by (simp add: pos_imp_zdiv_nonneg_iff)
  have s: "0 \<le> sint seconds mod 60" by simp
  have z: "sint (0 :: int64) = 0" by simp
  have "humanTime seconds =
      (let s = [];
           s = (if 0 < sint seconds div 3600
                then s @ sprintf_d (sint seconds div 3600) @ '' hours '' else s);
           s = (if 0 < (sint seconds mod 3600) div 60
                then s @ sprintf_d ((sint seconds mod 3600) div 60) @ '' minutes '' else s);
           s = (if 0 < sint seconds mod 60
                then s @ sprintf_d (sint seconds mod 60) @ '' seconds '' else s)
       in s)"
    unfolding humanTime_def Let_def word_sless_alt p z ..
  also have "\<dots> = humanTime_spec (sint seconds)"
    unfolding humanTime_spec_def by (rule time_components [OF h m s])
  finally show ?thesis .
qed

lemma humanTime_spec_3661: "humanTime_spec 3661 = ''1 hours 1 minutes 1 seconds ''"
  by code_simp

text \<open>
  C10, as amended. For every number of seconds from 0 up to 9223372036 (the largest whose
  nanosecond count \<open>seconds * 10^9\<close> still fits \<^verbatim>\<open>time.Duration\<close>, an \<^verbatim>\<open>int64\<close>),
  \<open>humanTime\<close> returns the hours, minutes and seconds components in that order, each
  "value unit " with the value in decimal, a component being left out exactly when its value is
  zero; \<open>humanTime 0\<close> is the empty string. Where \<^verbatim>\<open>int\<close> has 32 bits the bound holds for
  every non-negative argument.
\<close>

theorem humanTime_components:
  "(0 \<le> sint seconds \<and> sint seconds \<le> 9223372036 \<longrightarrow>
      humanTime seconds = humanTime_spec (sint seconds)) \<and>
   humanTime 0 = []"
proof -
  have "humanTime 0 = humanTime_spec (sint (0 :: int64))"
    by (rule humanTime_small) simp_all
  then have "humanTime 0 = []"
    by (simp add: humanTime_spec_def time_component_def)
  then show ?thesis using humanTime_small by blast
qed

theorem humanTime_components_witness:
  "0 \<le> sint (3661 :: int64) \<and> sint (3661 :: int64) \<le> 9223372036 \<and>
   humanTime 3661 = ''1 hours 1 minutes 1 seconds ''"
  using humanTime_components [of 3661] by (simp add: humanTime_spec_3661)

text \<open>
  The claim as first stated, for every non-negative number of seconds, fails once
  \<open>seconds * 10^9\<close> no longer fits 64 bits: the product wraps to a negative duration, no
  component is positive, and the result is empty although the hours are not zero.
\<close>

theorem humanTime_overflow_counterexample:
  "0 \<le> sint (9223372037 :: int64) \<and>
   humanTime 9223372037 = [] \<and>
   sint (9223372037 :: int64) div 3600 = 2562047 \<and>
   humanTime_spec (sint (9223372037 :: int64)) \<noteq> []"
  by (simp add: humanTime_spec_def time_component_def humanTime_def go_div_def go_mod_def
      Hour_def Minute_def Second_def signed_divide_int_def signed_modulo_int_def word_sless_alt)

section \<open>TreeSize\<close>

text \<open>
  C8, as amended. When \<^verbatim>\<open>GetSTH\<close> succeeds with a tree size below \<open>2^63\<close>, \<open>TreeSize\<close> returns
  that number and a nil error. When \<^verbatim>\<open>GetSTH\<close> fails, \<open>TreeSize\<close> returns 0 and the very error
  it received. Either way exactly one request has been issued: nothing is retried.
\<close>

theorem TreeSize_propagates:
  "(GetSTH (logClient s) n = Inr sth \<and> uint (STH_TreeSize sth) < 2 ^ 63 \<longrightarrow>
      sint (fst (fst (TreeSize s n))) = uint (STH_TreeSize sth) \<and>
      snd (fst (TreeSize s n)) = None \<and> snd (TreeSize s n) = Suc n) \<and>
   (GetSTH (logClient s) n = Inl err \<longrightarrow> TreeSize s n = ((0, Some err), Suc n))"
proof -
  have "sint w = uint w" if "uint w < 2 ^ 63" for w :: "64 word"
  proof -
    have "(0 :: int) \<le> 2 ^ 63" by simp
    then have "- (2 ^ 63) \<le> uint w" using uint_ge_0 [of w] by linarith
    then show ?thesis using that by (simp add: sint_uint signed_take_bit_int_eq_self)
  qed
  then show ?thesis by (auto simp: TreeSize_def)
qed

theorem TreeSize_propagates_witness:
  "(let s = NewScanner ''log'' \<lparr>GetEntries = (\<lambda>n a b. Inr []),
              GetSTH = (\<lambda>n. if n = 0 then Inl ''timeout''
                             else Inr \<lparr>STH_TreeSize = 5000, STH_Timestamp = 0\<rparr>)\<rparr>
              DefaultScannerOptions
    in TreeSize s 0 = ((0, Some ''timeout''), 1) \<and>
       GetSTH (logClient s) 1 = Inr \<lparr>STH_TreeSize = 5000, STH_Timestamp = 0\<rparr> \<and>
       uint (5000 :: 64 word) < 2 ^ 63 \<and>
       sint (fst (fst (TreeSize s 1))) = 5000 \<and> snd (fst (TreeSize s 1)) = None \<and>
       snd (TreeSize s 1) = 2)"
proof -
  define s where "s = NewScanner ''log'' \<lparr>GetEntries = (\<lambda>n a b. Inr []),
              GetSTH = (\<lambda>n. if n = 0 then Inl ''timeout''
                             else Inr \<lparr>STH_TreeSize = 5000, STH_Timestamp = 0\<rparr>)\<rparr>
              DefaultScannerOptions"
  have a: "GetSTH (logClient s) 0 = Inl ''timeout''"
    and b: "GetSTH (logClient s) 1 = Inr \<lparr>STH_TreeSize = 5000, STH_Timestamp = 0\<rparr>"
    by (simp_all add: s_def NewScanner_def)
  have "TreeSize s 0 = ((0, Some ''timeout''), 1)"
    using TreeSize_propagates [of s 0 undefined "''timeout''"] a by simp
  moreover have "sint (fst (fst (TreeSize s 1))) = 5000 \<and> snd (fst (TreeSize s 1)) = None \<and>
       snd (TreeSize s 1) = 2"
    using TreeSize_propagates [of s 1 "\<lparr>STH_TreeSize = 5000, STH_Timestamp = 0\<rparr>"] b
    by simp
  ultimately show ?thesis using b unfolding s_def Let_def by simp
qed

text \<open>
  The claim as first stated, for every answer, fails from \<open>2^63\<close> on: the conversion
  \<^verbatim>\<open>int64(latestSth.TreeSize)\<close> keeps the bits, and a tree size of \<open>2^63\<close> comes back as
  \<open>-2^63\<close>, with a nil error.
\<close>

theorem TreeSize_wraps_counterexample:
  "GetSTH (logClient (demo_scanner huge_log)) 0 =
     Inr \<lparr>STH_TreeSize = 9223372036854775808, STH_Timestamp = 0\<rparr> \<and>
   uint (9223372036854775808 :: 64 word) = 9223372036854775808 \<and>
   sint (fst (fst (TreeSize (demo_scanner huge_log) 0))) = - 9223372036854775808 \<and>
   snd (fst (TreeSize (demo_scanner huge_log) 0)) = None"
  by (simp add: TreeSize_def demo_scanner_def NewScanner_def huge_log_def)

section \<open>Scan: what returns, in which order, and who counts\<close>

lemma run_steps: "run s secs ts g = Some g' \<Longrightarrow> (step s)\<^sup>*\<^sup>* g g'"
proof (induction ts arbitrary: g)
  case Nil
  then show ?case by simp
next
  case (Cons t ts)
  then obtain g1 where 1: "thread_step s secs t g = Some g1" and 2: "run s secs ts g1 = Some g'"
    by (auto split: option.splits)
  have "step s g g1" using 1 by (rule step.intros)
  then show ?case using Cons.IH [OF 2] by (rule converse_rtranclp_into_rtranclp)
qed

lemma scan_run_reachable:
  "scan_run s secs ts a b = Some g \<Longrightarrow> reachable s a b g"
  by (auto simp: scan_run_def reachable_def split: option.splits dest: run_steps)

lemmas scan_eval =
  scan_run_def scan_init_def partition_def partition_loop.simps min64_def word_sless_alt
  thread_step_def orchestrator_step_def fetcher_step_def processer_step_def
  demo_scanner_def NewScanner_def DefaultScannerOptions_def full_log_def leaf_entry_def
  Log_def Warn_def fetches_cap_def jobs_cap_def reindex_def advance_def demo_schedule_def

lemma demo_run:
  "map_option (\<lambda>g. (orch g, map Index (handled g), certs g, map Index (sent g), requests g,
                    fetches_closed g, jobs_closed g, enqueued g, fetchers g, processers g))
     (scan_run (demo_scanner full_log) 7 demo_schedule 0 1) =
   Some (OReturned None, [0], 1, [0], 1, True, True, [\<lparr>start = 0, end = 0\<rparr>], [FDone], [PDone])"
  by (simp add: scan_eval)

lemma demo_final:
  obtains g where "reachable (demo_scanner full_log) 0 1 g" "orch g = OReturned None"
    "map Index (handled g) = [0]" "certs g = 1" "map Index (sent g) = [0]" "requests g = 1"
    "fetches_closed g" "jobs_closed g" "enqueued g = [\<lparr>start = 0, end = 0\<rparr>]"
    "fetchers g = [FDone]" "processers g = [PDone]"
proof -
  obtain g where g: "scan_run (demo_scanner full_log) 7 demo_schedule 0 1 = Some g"
    using demo_run by (cases "scan_run (demo_scanner full_log) 7 demo_schedule 0 1") auto
  show thesis
    using demo_run scan_run_reachable [OF g] unfolding g by (intro that [of g]) simp_all
qed

text \<open>
  C9. Whatever the inputs and whatever the log answers, a Scan that returns returns \<^verbatim>\<open>nil\<close>.
\<close>

theorem Scan_returns_nil:
  assumes "Scan_returns s startIndex endIndex g err"
  shows "err = None"
proof -
  have r: "reachable s startIndex endIndex g" and o: "orch g = OReturned err"
    using assms by (simp_all add: Scan_returns_def)
  from r obtain ranges where "partition startIndex endIndex (BatchSize (opts s)) = Some ranges"
    by (rule reachable_partition)
  then have "orch_inv ranges g" using r reachable_orch_inv by blast
  then show ?thesis using o by (simp add: orch_inv_def)
qed

theorem Scan_returns_nil_witness:
  "\<exists>g err. Scan_returns (demo_scanner full_log) 0 1 g err \<and> err = None \<and>
           map Index (handled g) = [0]"
proof -
  obtain g where g: "reachable (demo_scanner full_log) 0 1 g" "orch g = OReturned None"
    "map Index (handled g) = [0]"
    by (rule demo_final)
  then have r: "Scan_returns (demo_scanner full_log) 0 1 g None" by (simp add: Scan_returns_def)
  have "(None :: string option) = None" using Scan_returns_nil [OF r] .
  then show ?thesis using r g(3) by (intro exI conjI)
qed

lemma step_phase:
  assumes "step s g g'"
  shows "phase (orch g) \<le> phase (orch g') \<and> phase (orch g') \<le> Suc (phase (orch g))"
  using assms by (cases rule: step_cases) simp_all

text \<open>
  C7. In every state a scan can reach: the work queue is closed exactly from the phase on in
  which the orchestrator waits for the fetchers, and by then every range of the partition has
  been enqueued (before, the ranges enqueued and those still to enqueue make up the
  partition); the entry queue is closed exactly from the phase on in which the orchestrator
  waits for the processers, and by then every fetcher has terminated; Scan has returned only
  when every processer has terminated; and a step never takes the orchestrator back or over a
  phase.
\<close>

theorem shutdown_order:
  assumes "reachable s startIndex endIndex g"
  shows "(fetches_closed g \<longleftrightarrow> 1 \<le> phase (orch g)) \<and>
         (\<forall>rest. orch g = OEnqueue rest \<longrightarrow>
            partition startIndex endIndex (BatchSize (opts s)) = Some (enqueued g @ rest)) \<and>
         (1 \<le> phase (orch g) \<longrightarrow>
            partition startIndex endIndex (BatchSize (opts s)) = Some (enqueued g)) \<and>
         (jobs_closed g \<longleftrightarrow> 2 \<le> phase (orch g)) \<and>
         (2 \<le> phase (orch g) \<longrightarrow> list_all (\<lambda>f. f = FDone) (fetchers g)) \<and>
         (3 \<le> phase (orch g) \<longrightarrow> list_all (\<lambda>p. p = PDone) (processers g)) \<and>
         (\<forall>g'. step s g g' \<longrightarrow>
            phase (orch g) \<le> phase (orch g') \<and> phase (orch g') \<le> Suc (phase (orch g)))"
proof -
  from assms obtain ranges where p: "partition startIndex endIndex (BatchSize (opts s)) = Some ranges"
    by (rule reachable_partition)
  then have inv: "orch_inv ranges g" using assms reachable_orch_inv by blast
  have ph: "\<forall>g'. step s g g' \<longrightarrow>
            phase (orch g) \<le> phase (orch g') \<and> phase (orch g') \<le> Suc (phase (orch g))"
    using step_phase by blast
  have "(fetches_closed g \<longleftrightarrow> 1 \<le> phase (orch g)) \<and>
         (\<forall>rest. orch g = OEnqueue rest \<longrightarrow> ranges = enqueued g @ rest) \<and>
         (1 \<le> phase (orch g) \<longrightarrow> ranges = enqueued g) \<and>
         (jobs_closed g \<longleftrightarrow> 2 \<le> phase (orch g)) \<and>
         (2 \<le> phase (orch g) \<longrightarrow> list_all (\<lambda>f. f = FDone) (fetchers g)) \<and>
         (3 \<le> phase (orch g) \<longrightarrow> list_all (\<lambda>p. p = PDone) (processers g))"
    using inv by (cases "orch g") (simp_all add: orch_inv_def)
  then show ?thesis using p ph by simp
qed

theorem shutdown_order_witness:
  "\<exists>g. reachable (demo_scanner full_log) 0 1 g \<and> phase (orch g) = 3 \<and>
       fetches_closed g \<and> jobs_closed g \<and>
       partition 0 1 (BatchSize (opts (demo_scanner full_log))) = Some (enqueued g) \<and>
       list_all (\<lambda>f. f = FDone) (fetchers g) \<and> list_all (\<lambda>p. p = PDone) (processers g)"
proof -
  obtain g where g: "reachable (demo_scanner full_log) 0 1 g" "orch g = OReturned None"
    by (rule demo_final)
  show ?thesis using shutdown_order [OF g(1)] g by (intro exI [of _ g]) simp
qed

text \<open>
  C4, as amended. The processed counter is incremented once per entry by the processer that
  has received the entry from the entry queue, in the step before it calls the handler on
  it: no step of a fetcher or of the orchestrator changes the counter, a processer's step
  adds one exactly when it holds a received entry not yet counted, and in every state a scan
  can reach the counter is the number of entries handed to the handler plus the number of
  processers that have counted an entry and are about to hand it over.
\<close>

theorem counter_follows_processers:
  "(reachable s startIndex endIndex g \<longrightarrow>
      certs g = word_of_nat (length (handled g) + sum_list (map counted (processers g)))) \<and>
   (fetcher_step s i g = Some g' \<longrightarrow> certs g' = certs g) \<and>
   (orchestrator_step s secs g = Some g' \<longrightarrow> certs g' = certs g) \<and>
   (processer_step s j g = Some g' \<longrightarrow>
      (case processers g ! j of
         PCount entry \<Rightarrow>
           certs g' = certs g + 1 \<and> processers g' ! j = PCall entry \<and> handled g' = handled g
       | PCall entry \<Rightarrow> certs g' = certs g \<and> handled g' = handled g @ [entry]
       | _ \<Rightarrow> certs g' = certs g \<and> handled g' = handled g))"
proof (intro conjI impI)
  assume "reachable s startIndex endIndex g"
  then show "certs g = word_of_nat (length (handled g) + sum_list (map counted (processers g)))"
    using reachable_count_inv by (simp add: count_inv_def)
next
  assume "fetcher_step s i g = Some g'"
  then show "certs g' = certs g" by (cases rule: fetcher_step_cases) simp_all
next
  assume "orchestrator_step s secs g = Some g'"
  then show "certs g' = certs g" by (cases rule: orchestrator_step_cases) simp_all
next
  assume "processer_step s j g = Some g'"
  then show "case processers g ! j of
         PCount entry \<Rightarrow>
           certs g' = certs g + 1 \<and> processers g' ! j = PCall entry \<and> handled g' = handled g
       | PCall entry \<Rightarrow> certs g' = certs g \<and> handled g' = handled g @ [entry]
       | _ \<Rightarrow> certs g' = certs g \<and> handled g' = handled g"
    by (cases rule: processer_step_cases) simp_all
qed

theorem counter_follows_processers_witness:
  "\<exists>g. reachable (demo_scanner full_log) 0 1 g \<and> certs g = 1 \<and> map Index (handled g) = [0] \<and>
       processers g = [PDone]"
proof -
  obtain g where g: "reachable (demo_scanner full_log) 0 1 g"
    "map Index (handled g) = [0]" "processers g = [PDone]"
    by (rule demo_final)
  have "length (map Index (handled g)) = 1" unfolding g(2) by simp
  then have "length (handled g) = 1" by simp
  then have "certs g = 1"
    using counter_follows_processers [of "demo_scanner full_log" 0 1 g] g(1,3) by simp
  then show ?thesis using g by (intro exI conjI)
qed

text \<open>
  The claim as first stated fails: after the fetcher has delivered the entry for index 0 to
  the entry queue, the counter is still 0.
\<close>

theorem counter_at_delivery_counterexample:
  "map_option (\<lambda>g. (map Index (sent g), map Index (jobs g), certs g, handled g))
     (scan_run (demo_scanner full_log) 7 [Orchestrator, Fetcher 0, Fetcher 0, Fetcher 0] 0 1) =
   Some ([0], [0], 0, [])"
  by (simp add: scan_eval)

section \<open>Scan hands every index to the handler once\<close>

lemma partition_tiles:
  assumes "a <s b" "0 <s bs" "sint b + sint bs \<le> 2 ^ 63"
  obtains ranges where "partition a b bs = Some ranges" "tiles (sint a) (sint b) (sint bs) ranges"
  using partition_loop_tiles [OF assms(2,3), of a "[]"] assms(1) by (auto simp: partition_def)

lemma full_is_answering: "returns_full_range c \<Longrightarrow> always_answers c"
  unfolding returns_full_range_def always_answers_def
proof (intro allI impI)
  fix n and a b :: int64
  assume full: "\<forall>n a b. a \<le>s b \<longrightarrow>
     (\<exists>logEntries. GetEntries c n a b = Inr logEntries \<and> int (length logEntries) = sint b - sint a + 1)"
    and le: "a \<le>s b"
  then obtain es where es: "GetEntries c n a b = Inr es" "int (length es) = sint b - sint a + 1"
    by blast
  have "0 < int (length es)" using es(2) le by (simp add: word_sle_eq)
  then have "es \<noteq> []" by auto
  then show "\<exists>logEntries. GetEntries c n a b = Inr logEntries \<and> logEntries \<noteq> [] \<and>
      int (length logEntries) \<le> sint b - sint a + 1"
    using es by simp
qed

lemma answering_is_bounded: "always_answers c \<Longrightarrow> never_more_than_requested c"
  unfolding always_answers_def never_more_than_requested_def by (metis Inr_inject)

lemma answering_is_eventual: "always_answers c \<Longrightarrow> answers_eventually c"
  unfolding always_answers_def answers_eventually_def by (meson order_refl)

lemma answered_if_answering:
  assumes "always_answers (logClient s)" and "list_all fetcher_ok (fetchers g)"
  shows "answered s g"
  unfolding answered_def
proof
  fix f assume f: "f \<in> set (fetchers g)"
  then have ok: "fetcher_ok f" using assms(2) by (simp add: list_all_iff)
  show "case f of
        FFetch r \<Rightarrow>
          (case GetEntries (logClient s) (requests g) (start r) (end r) of
             Inl err \<Rightarrow> False
           | Inr logEntries \<Rightarrow> logEntries \<noteq> [])
      | _ \<Rightarrow> True"
  proof (cases f)
    case (FFetch r)
    then have "start r \<le>s end r" using ok by (simp add: range_ok_def word_sle_eq)
    then obtain es where "GetEntries (logClient s) (requests g) (start r) (end r) = Inr es" "es \<noteq> []"
      using assms(1) unfolding always_answers_def by blast
    then show ?thesis using FFetch by simp
  qed simp_all
qed

text \<open>
  A scan over well-formed ranges, with a log that answers every request and a worker in each
  pool: every run is finite, none gets stuck, some run returns, and a scan that has returned
  has handed every index to the handler once.
\<close>

lemma scan_terminates:
  assumes p: "partition a b (BatchSize (opts s)) = Some ranges" and ok: "list_all range_ok ranges"
    and c: "always_answers (logClient s)"
    and nw: "0 <s NumWorkers (opts s)" and pf: "0 <s ParallelFetch (opts s)"
  shows "\<exists>g. Scan_returns s a b g None"
    and "\<forall>g. reachable s a b g \<longrightarrow> (\<exists>err. orch g = OReturned err) \<or> (\<exists>g'. step s g g')"
    and "\<forall>f. reachable s a b (f 0) \<longrightarrow> \<not> (\<forall>i. step s (f i) (f (Suc i)))"
proof -
  let ?I = "reachable s a b"
  have bounded: "never_more_than_requested (logClient s)" using c by (rule answering_is_bounded)
  have dec: "?I g' \<and> steps_left g' < steps_left g" if "?I g" "step s g g'" for g g'
  proof -
    have flow: "flow_inv (mset (concat (map range_indices ranges))) g"
      using that(1) p ok bounded by (rule reachable_flow_inv)
    then have "answered s g" using c by (simp add: answered_if_answering flow_inv_def)
    then have "steps_left g' < steps_left g"
      using that(2) flow reachable_orch_inv [OF that(1) p] by (rule steps_left_step [rotated 3])
    then show ?thesis using reachable_step [OF that] by simp
  qed
  have live: "(\<exists>err. orch g = OReturned err) \<or> (\<exists>g'. step s g g')" if "?I g" for g
  proof -
    have "0 < sint (NumWorkers (opts s))" "0 < sint (ParallelFetch (opts s))"
      using nw pf by (simp_all add: word_sless_alt)
    then have "fetchers g \<noteq> []" "processers g \<noteq> []"
      using reachable_lengths [OF that] by auto
    then show ?thesis using never_stuck [OF reachable_orch_inv [OF that p]] by blast
  qed
  obtain g0 where g0: "scan_init s a b = Some g0" using p by (simp add: scan_init_def)
  then have "?I g0" by (rule reachable_init)
  from some_run_returns [of ?I s, OF dec live this]
  obtain g err where "(step s)\<^sup>*\<^sup>* g0 g" "orch g = OReturned err" by blast
  then have "Scan_returns s a b g err"
    using reachable_steps [OF \<open>?I g0\<close>] by (simp add: Scan_returns_def)
  moreover from this have "err = None"
    using reachable_orch_inv [OF _ p, of g] by (simp add: Scan_returns_def orch_inv_def)
  ultimately show "\<exists>g. Scan_returns s a b g None" by blast
  show "\<forall>g. ?I g \<longrightarrow> (\<exists>err. orch g = OReturned err) \<or> (\<exists>g'. step s g g')"
    using live by blast
  show "\<forall>f. ?I (f 0) \<longrightarrow> \<not> (\<forall>i. step s (f i) (f (Suc i)))"
    using finite_runs [of ?I s, OF dec] by blast
qed

lemma scan_exactly_once:
  assumes p: "partition a b (BatchSize (opts s)) = Some ranges" and ok: "list_all range_ok ranges"
    and c: "never_more_than_requested (logClient s)"
    and nw: "0 <s NumWorkers (opts s)" and pf: "0 <s ParallelFetch (opts s)"
    and ret: "Scan_returns s a b g err"
  shows "mset (map entry_index (handled g)) = mset (concat (map range_indices ranges))"
    and "certs g = word_of_nat (length (concat (map range_indices ranges)))"
proof -
  have r: "reachable s a b g" and o: "orch g = OReturned err"
    using ret by (simp_all add: Scan_returns_def)
  have "0 < sint (NumWorkers (opts s))" "0 < sint (ParallelFetch (opts s))"
    using nw pf by (simp_all add: word_sless_alt)
  then have ne: "fetchers g \<noteq> []" "processers g \<noteq> []"
    using reachable_lengths [OF r] by auto
  note fin = returned_nothing_in_flight [OF reachable_orch_inv [OF r p] o ne]
  have "in_flight g + delivered g = mset (concat (map range_indices ranges))"
    using reachable_flow_inv [OF r p ok c] by (simp add: flow_inv_def)
  then show d: "mset (map entry_index (handled g)) = mset (concat (map range_indices ranges))"
    using fin(1) by (simp add: delivered_def)
  have "length (handled g) = size (mset (map entry_index (handled g)))" by simp
  also have "\<dots> = length (concat (map range_indices ranges))" unfolding d by simp
  finally show "certs g = word_of_nat (length (concat (map range_indices ranges)))"
    using reachable_count_inv [OF r] fin(2) by (simp add: count_inv_def)
qed

lemma full_log_full: "returns_full_range full_log"
  by (simp add: returns_full_range_def full_log_def word_sle_eq)

text \<open>
  C3, as amended. With a log that always returns the full requested range, a batch size of
  1000 and at least one processer and one fetcher, \<open>Scan(0, 5000, handler)\<close> cannot run
  forever or get stuck, some run of it returns, and whenever it has returned the handler has
  been called exactly once for each index of \<open>[0, 5000)\<close> and the counter is 5000.
\<close>

theorem Scan_5000:
  assumes "BatchSize (opts s) = 1000"
    and "0 <s NumWorkers (opts s)" and "0 <s ParallelFetch (opts s)"
    and "returns_full_range (logClient s)"
  shows "(\<exists>g. Scan_returns s 0 5000 g None) \<and>
         (\<forall>g. reachable s 0 5000 g \<longrightarrow> (\<exists>err. orch g = OReturned err) \<or> (\<exists>g'. step s g g')) \<and>
         (\<forall>f. reachable s 0 5000 (f 0) \<longrightarrow> \<not> (\<forall>i. step s (f i) (f (Suc i)))) \<and>
         (\<forall>g err. Scan_returns s 0 5000 g err \<longrightarrow>
            mset (map entry_index (handled g)) = mset [0 .. 4999] \<and> certs g = 5000)"
proof -
  obtain ranges where p: "partition 0 5000 (BatchSize (opts s)) = Some ranges"
    and t: "tiles (sint (0 :: int64)) (sint (5000 :: int64)) (sint (1000 :: int64)) ranges"
    unfolding assms(1) by (rule partition_tiles [of 0 5000 1000]) (simp_all add: word_sless_alt)
  have ok: "list_all range_ok ranges" using t by (rule tiles_range_ok) simp
  have cover: "concat (map range_indices ranges) = [0 .. 4999]"
    using tiles_cover [OF t] by simp
  have c: "always_answers (logClient s)" using assms(4) by (rule full_is_answering)
  note halts = scan_terminates [OF p ok c assms(2,3)]
  have "mset (map entry_index (handled g)) = mset [0 .. 4999] \<and> certs g = 5000"
    if "Scan_returns s 0 5000 g err" for g err
    using scan_exactly_once [OF p ok answering_is_bounded [OF c] assms(2,3) that]
    by (simp add: cover)
  then show ?thesis using halts by blast
qed

theorem Scan_5000_witness:
  "BatchSize (opts (demo_scanner full_log)) = 1000 \<and>
   0 <s NumWorkers (opts (demo_scanner full_log)) \<and>
   0 <s ParallelFetch (opts (demo_scanner full_log)) \<and>
   returns_full_range (logClient (demo_scanner full_log)) \<and>
   (\<exists>g. Scan_returns (demo_scanner full_log) 0 5000 g None \<and>
        mset (map entry_index (handled g)) = mset [0 .. 4999] \<and> certs g = 5000)"
proof -
  have h: "BatchSize (opts (demo_scanner full_log)) = 1000"
    "0 <s NumWorkers (opts (demo_scanner full_log))"
    "0 <s ParallelFetch (opts (demo_scanner full_log))"
    "returns_full_range (logClient (demo_scanner full_log))"
    using full_log_full
    by (simp_all add: demo_scanner_def NewScanner_def DefaultScannerOptions_def word_sless_alt)
  show ?thesis using Scan_5000 [OF h] h by blast
qed

text \<open>
  The claim as first stated says nothing of the pools. Without a fetcher nothing is
  fetched: the five ranges fit the work queue, the orchestrator closes both queues, the
  processer leaves, and Scan returns with no entry handled and the counter at 0.
\<close>

theorem Scan_5000_counterexample:
  "returns_full_range full_log \<and>
   map_option (\<lambda>g. (orch g, handled g, certs g))
     (scan_run (NewScanner ''log'' full_log
        \<lparr>BatchSize = 1000, NumWorkers = 1, ParallelFetch = 0, Quiet = False\<rparr>) 7
        [Orchestrator, Orchestrator, Orchestrator, Orchestrator, Orchestrator, Orchestrator,
         Orchestrator, Processer 0, Orchestrator] 0 5000) =
   Some (OReturned None, [], 0)"
  using full_log_full by (simp add: scan_eval)

section \<open>Scans with nothing to do\<close>

lemma idle_init:
  assumes "partition a b (BatchSize (opts s)) = Some []" "scan_init s a b = Some g0"
  shows "idle g0"
  using assms by (auto simp: scan_init_def idle_def list_all_length)

lemma idle_fetcher:
  assumes "idle g" "i < length (fetchers g)"
  shows "fetchers g ! i = FRecv \<or> fetchers g ! i = FDone"
  using assms by (simp add: idle_def list_all_length)

lemma idle_processer:
  assumes "idle g" "j < length (processers g)"
  shows "processers g ! j = PRecv \<or> processers g ! j = PDone"
  using assms by (simp add: idle_def list_all_length)

lemma idle_step:
  assumes "step s g g'" and i: "idle g"
  shows "idle g'"
  using assms(1)
proof (cases rule: step_cases)
  case (enqueue r rest)
  then show ?thesis using i by (simp add: idle_def)
next
  case close_fetches
  then show ?thesis using i by (simp add: idle_def)
next
  case close_jobs
  then show ?thesis using i by (simp add: idle_def)
next
  case (return secs)
  then show ?thesis using i by (simp add: idle_def)
next
  case (fetcher_recv k r rest)
  then show ?thesis using i by (simp add: idle_def)
next
  case (fetcher_exit k)
  then show ?thesis using i by (simp add: idle_def list_all_update)
next
  case (fetcher_fail k r err)
  then show ?thesis using idle_fetcher [OF i] by fastforce
next
  case (fetcher_got k r logEntries)
  then show ?thesis using idle_fetcher [OF i] by fastforce
next
  case (fetcher_send k r logEntry rest)
  then show ?thesis using idle_fetcher [OF i] by fastforce
next
  case (fetcher_panic k r logEntry rest)
  then show ?thesis using idle_fetcher [OF i] by fastforce
next
  case (fetcher_next k r)
  then show ?thesis using idle_fetcher [OF i] by fastforce
next
  case (processer_recv j entry rest)
  then show ?thesis using i by (simp add: idle_def)
next
  case (processer_exit j)
  then show ?thesis using i by (simp add: idle_def list_all_update)
next
  case (processer_count j entry)
  then show ?thesis using idle_processer [OF i] by fastforce
next
  case (processer_call j entry)
  then show ?thesis using idle_processer [OF i] by fastforce
qed

lemma reachable_idle:
  assumes "reachable s a b g" "partition a b (BatchSize (opts s)) = Some []"
  shows "idle g"
  using assms(1)
proof (induction rule: reachable_induct)
  case (init g0)
  then show ?case using assms(2) idle_init by blast
next
  case (step g g')
  then show ?case using idle_step by blast
qed

lemma idle_flow:
  assumes "idle g"
  shows "flow_inv {#} g" "answered s g"
proof -
  have f: "list_all (\<lambda>f. f = FRecv \<or> f = FDone) (fetchers g)"
    and p: "list_all (\<lambda>p. p = PRecv \<or> p = PDone) (processers g)"
    using assms by (simp_all add: idle_def)
  have 1: "sum_list (map fetcher_holds fs) = {#} \<and> list_all fetcher_ok fs"
    if "list_all (\<lambda>f. f = FRecv \<or> f = FDone) fs" for fs
    using that by (induction fs) auto
  have 2: "sum_list (map processer_holds ps) = {#}"
    if "list_all (\<lambda>p. p = PRecv \<or> p = PDone) ps" for ps
    using that by (induction ps) auto
  show "flow_inv {#} g"
    using assms 1 [OF f] 2 [OF p]
    by (cases "orch g") (simp_all add: idle_def flow_inv_def in_flight_def delivered_def)
  show "answered s g"
    using f by (auto simp: answered_def list_all_iff split: fetcher.splits)
qed

lemma bounded_runs:
  assumes dec: "\<And>g g'. I g \<Longrightarrow> step s g g' \<Longrightarrow> I g' \<and> steps_left g' < steps_left g"
    and "I (f 0)" and run: "\<forall>i<k. step s (f i) (f (Suc i))"
  shows "k \<le> steps_left (f 0)"
proof -
  have "i \<le> k \<longrightarrow> I (f i) \<and> steps_left (f i) + i \<le> steps_left (f 0)" for i
  proof (induction i)
    case 0
    then show ?case using assms(2) by simp
  next
    case (Suc i)
    then show ?case using dec [of "f i" "f (Suc i)"] run by fastforce
  qed
  from this [of k] show ?thesis by simp
qed

lemma steps_left_idle_init:
  assumes "partition a b (BatchSize (opts s)) = Some []" "scan_init s a b = Some g0"
  shows "steps_left g0 = 3 + nat (sint (ParallelFetch (opts s))) + nat (sint (NumWorkers (opts s)))"
proof -
  have "sum_list (replicate n (Suc 0)) = n" for n by (induction n) simp_all
  then show ?thesis
    using assms by (auto simp: scan_init_def steps_left_def)
qed

lemma partition_loop_stuck:
  assumes "st0 <s e0"
  shows "partition_loop st0 e0 0 acc0 = None"
proof (rule ccontr)
  assume "partition_loop st0 e0 0 acc0 \<noteq> None"
  then obtain res where run: "partition_loop st0 e0 0 acc0 = Some res" by blast
  let ?P = "\<lambda>st e (bs :: int64) (acc :: fetchRange list) (res :: fetchRange list).
    \<not> (st <s e \<and> bs = 0)"
  have "?P st0 e0 0 acc0 res"
  proof (rule partition_loop.raw_induct [where P = ?P, OF _ run], intro notI)
    fix f st e bs acc res
    assume IH: "\<And>st e bs acc res. f st e bs acc = Some res \<Longrightarrow> ?P st e bs acc res"
      and body: "(if st <s e
          then let x = min64 (st + bs) e - 1
               in f (x + 1) e bs (acc @ [\<lparr>start = st, end = x\<rparr>])
          else Some acc) = Some res"
      and c: "st <s e \<and> bs = 0"
    have "min64 (st + 0) e = st" using c by (simp add: min64_def)
    then have "f st e 0 (acc @ [\<lparr>start = st, end = st - 1\<rparr>]) = Some res"
      using body c by (simp add: Let_def)
    from IH [OF this] c show False by simp
  qed
  then show False using assms by simp
qed

text \<open>
  C5, as amended. Whenever \<open>startIndex \<ge> endIndex\<close>, whatever the batch size, the pool sizes
  and the log: the partitioning loop yields no range; Scan cannot get stuck, returns after at
  most one step of the orchestrator for each of its three phases and one for each worker, and
  when it has returned it returned \<^verbatim>\<open>nil\<close>, no request was issued, no entry was sent or
  handled, and the counter is 0.
\<close>

theorem degenerate_scan:
  assumes "\<not> startIndex <s endIndex"
  shows "partition startIndex endIndex (BatchSize (opts s)) = Some [] \<and>
         (\<exists>g. Scan_returns s startIndex endIndex g None) \<and>
         (\<forall>g. reachable s startIndex endIndex g \<longrightarrow>
            (\<exists>err. orch g = OReturned err) \<or> (\<exists>g'. step s g g')) \<and>
         (\<forall>f k. reachable s startIndex endIndex (f 0) \<and> (\<forall>i<k. step s (f i) (f (Suc i))) \<longrightarrow>
            k \<le> 3 + nat (sint (ParallelFetch (opts s))) + nat (sint (NumWorkers (opts s)))) \<and>
         (\<forall>g err. Scan_returns s startIndex endIndex g err \<longrightarrow>
            err = None \<and> requests g = 0 \<and> sent g = [] \<and> handled g = [] \<and> certs g = 0)"
proof -
  let ?I = "reachable s startIndex endIndex"
  have p: "partition startIndex endIndex (BatchSize (opts s)) = Some []"
    using assms by (rule partition_empty)
  obtain g0 where g0: "scan_init s startIndex endIndex = Some g0" using p by (simp add: scan_init_def)
  then have r0: "?I g0" by (rule reachable_init)
  have dec: "?I g' \<and> steps_left g' < steps_left g" if "?I g" "step s g g'" for g g'
  proof -
    have "idle g" using that(1) p by (rule reachable_idle)
    then have "steps_left g' < steps_left g"
      using steps_left_step [OF that(2) _ reachable_orch_inv [OF that(1) p]] idle_flow by blast
    then show ?thesis using reachable_step [OF that] by simp
  qed
  have live: "(\<exists>err. orch g = OReturned err) \<or> (\<exists>g'. step s g g')" if "?I g" for g
  proof -
    have "idle g" using that p by (rule reachable_idle)
    then have "length (fetches g) < fetches_cap" "length (jobs g) < jobs_cap"
      by (simp_all add: idle_def fetches_cap_def jobs_cap_def)
    then show ?thesis using never_stuck [OF reachable_orch_inv [OF that p]] by blast
  qed
  from some_run_returns [of ?I s, OF dec live r0]
  obtain g err where "(step s)\<^sup>*\<^sup>* g0 g" "orch g = OReturned err" by blast
  then have ret: "Scan_returns s startIndex endIndex g err"
    using reachable_steps [OF r0] by (simp add: Scan_returns_def)
  then have "err = None"
    using reachable_orch_inv [OF _ p, of g] by (simp add: Scan_returns_def orch_inv_def)
  then have 1: "\<exists>g. Scan_returns s startIndex endIndex g None" using ret by blast
  have le0: "steps_left g \<le> steps_left g0" if "?I g" for g
    using that
  proof (induction rule: reachable_induct)
    case (init g1)
    then show ?case using g0 by simp
  next
    case (step g g')
    then show ?case using dec [of g g'] by simp
  qed
  have 2: "k \<le> 3 + nat (sint (ParallelFetch (opts s))) + nat (sint (NumWorkers (opts s)))"
    if "?I (f 0)" "\<forall>i<k. step s (f i) (f (Suc i))" for f k
    using bounded_runs [of ?I s f k, OF dec that] le0 [OF that(1)]
      steps_left_idle_init [OF p g0] by simp
  have 3: "err = None \<and> requests g = 0 \<and> sent g = [] \<and> handled g = [] \<and> certs g = 0"
    if "Scan_returns s startIndex endIndex g err" for g err
  proof -
    have r: "?I g" and o: "orch g = OReturned err" using that by (simp_all add: Scan_returns_def)
    have "idle g" using r p by (rule reachable_idle)
    moreover have "err = None" using reachable_orch_inv [OF r p] o by (simp add: orch_inv_def)
    ultimately show ?thesis by (simp add: idle_def)
  qed
  show ?thesis using p 1 live 2 3 by blast
qed

theorem degenerate_scan_witness:
  "\<not> (5 :: int64) <s 5 \<and>
   partition 5 5 (BatchSize (opts (demo_scanner slow_log))) = Some [] \<and>
   (\<exists>g. Scan_returns (demo_scanner slow_log) 5 5 g None \<and> requests g = 0 \<and> sent g = [] \<and>
        handled g = [] \<and> certs g = 0)"
proof -
  have h: "\<not> (5 :: int64) <s 5" by simp
  show ?thesis using degenerate_scan [OF h, of "demo_scanner slow_log"] h by blast
qed

text \<open>
  The claim as first stated also calls a batch size \<open>\<le> 0\<close> degenerate. With
  \<open>startIndex < endIndex\<close> and a batch size of 0 the partitioning loop pushes the range
  \<open>[start, start - 1]\<close> and starts over from the same \<open>start\<close>, for ever: it yields nothing,
  and Scan never gets to its goroutines.
\<close>

theorem zero_batch_counterexample:
  "(0 :: int64) \<le>s 0 \<and> partition 0 1 0 = None \<and>
   scan_init (NewScanner ''log'' full_log
      \<lparr>BatchSize = 0, NumWorkers = 1, ParallelFetch = 1, Quiet = False\<rparr>) 0 1 = None"
proof -
  have "partition 0 1 0 = None"
    unfolding partition_def by (rule partition_loop_stuck) (simp add: word_sless_alt)
  then show ?thesis by (simp add: scan_init_def NewScanner_def)
qed

section \<open>What a fetcher pushes for a range\<close>












section \<open>Failed requests\<close>

lemma fetcher_done_by_exit:
  assumes "step s g g'" and i: "i < length (fetchers g)"
    and before: "fetchers g ! i \<noteq> FDone" and after: "fetchers g' ! i = FDone"
  shows "fetchers g ! i = FRecv \<and> fetches_closed g \<and> fetches g = []"
  using assms(1)
proof (cases rule: step_cases)
  case (fetcher_recv k r rest)
  then show ?thesis using i before after by (cases "k = i") simp_all
next
  case (fetcher_exit k)
  then show ?thesis using i before after by (cases "k = i") simp_all
next
  case (fetcher_got k r logEntries)
  then show ?thesis using i before after by (cases "k = i") simp_all
next
  case (fetcher_send k r logEntry rest)
  then show ?thesis using i before after by (cases "k = i") simp_all
next
  case (fetcher_next k r)
  then show ?thesis using i before after by (cases "k = i") (simp_all split: if_splits)
qed (use before after in simp_all)

lemma fetcher_step_fail:
  assumes "\<not> panicked g" "i < length (fetchers g)" "fetchers g ! i = FFetch r"
    and "GetEntries (logClient s) (requests g) (start r) (end r) = Inl err"
  shows "thread_step s secs (Fetcher i) g =
           Some (g\<lparr>printed := Warn s (problem_msg err) (Log s (fetching_msg r) (printed g)),
                    requests := Suc (requests g)\<rparr>)"
  using assms by (simp add: thread_step_def fetcher_step_def)

lemma returned_nil:
  assumes "Scan_returns s a b g err"
  shows "err = None"
proof -
  have r: "reachable s a b g" and o: "orch g = OReturned err"
    using assms by (simp_all add: Scan_returns_def)
  from r obtain ranges where "partition a b (BatchSize (opts s)) = Some ranges"
    by (rule reachable_partition)
  then have "orch_inv ranges g" using r reachable_orch_inv by blast
  then show ?thesis using o by (simp add: orch_inv_def)
qed

text \<open>
  C6. When a request fails, the worker prints a warning (also when quiet), leaves the range as
  it is and tries again, with nothing between the two requests and whatever the error and
  the number of failures before; a worker whose requests all fail never leaves the range. In
  a scan, the same step of a fetcher changes nothing but the lines printed and the number of
  requests; a fetcher terminates only from its \<^verbatim>\<open>range\<close> loop, with the work queue closed and
  empty; and a Scan that returns returns \<^verbatim>\<open>nil\<close>.
\<close>

theorem fetch_failure_retried:
  "(GetEntries (logClient s) (requests w) (start r) (end r) = Inl err \<longrightarrow>
      fetch_attempt s r w =
        (False, r, w\<lparr>printed := Warn s (problem_msg err) (Log s (fetching_msg r) (printed w)),
                     requests := Suc (requests w)\<rparr>) \<and>
      fetch_range s r w =
        fetch_range s r (w\<lparr>printed := Warn s (problem_msg err) (Log s (fetching_msg r) (printed w)),
                          requests := Suc (requests w)\<rparr>) \<and>
      Warn s (problem_msg err) (Log s (fetching_msg r) (printed w)) =
        Log s (fetching_msg r) (printed w) @ [LogUri s @ '': '' @ ''Problem fetching from log: '' @ err]) \<and>
   ((\<forall>m \<ge> requests w. \<exists>err. GetEntries (logClient s) m (start r) (end r) = Inl err) \<longrightarrow>
      fetch_range s r w = None) \<and>
   (\<not> panicked g \<and> i < length (fetchers g) \<and> fetchers g ! i = FFetch r \<and>
    GetEntries (logClient s) (requests g) (start r) (end r) = Inl err \<longrightarrow>
      thread_step s secs (Fetcher i) g =
        Some (g\<lparr>printed := Warn s (problem_msg err) (Log s (fetching_msg r) (printed g)),
                 requests := Suc (requests g)\<rparr>)) \<and>
   (step s g g' \<and> i < length (fetchers g) \<and> fetchers g ! i \<noteq> FDone \<and> fetchers g' ! i = FDone \<longrightarrow>
      fetchers g ! i = FRecv \<and> fetches_closed g \<and> fetches g = []) \<and>
   (Scan_returns s startIndex endIndex g e \<longrightarrow> e = None)"
  using fetch_attempt_fail [of s w r err] fetch_range_retry [of s w r err]
    fetch_range_never [of w s r] fetcher_step_fail [of g i r s err secs]
    fetcher_done_by_exit [of s g g' i] returned_nil [of s startIndex endIndex g e]
  by (simp add: Warn_def problem_msg_def)

lemma slow_attempt:
  "fetch_attempt (demo_scanner slow_log) \<lparr>start = 10, end = 12\<rparr> no_view =
     (False, \<lparr>start = 10, end = 12\<rparr>,
      \<lparr>printed = [''log: '' @ fetching_msg \<lparr>start = 10, end = 12\<rparr>,
                  ''log: Problem fetching from log: timeout''],
       requests = 1, sent = []\<rparr>)"
  by (simp add: fetch_attempt_def demo_scanner_def NewScanner_def DefaultScannerOptions_def
      slow_log_def no_view_def Log_def Warn_def problem_msg_def)

theorem fetch_failure_retried_witness:
  "GetEntries (logClient (demo_scanner slow_log)) (requests no_view) 10 12 = Inl ''timeout'' \<and>
   fetch_attempt (demo_scanner slow_log) \<lparr>start = 10, end = 12\<rparr> no_view =
     (False, \<lparr>start = 10, end = 12\<rparr>,
      \<lparr>printed = [''log: '' @ fetching_msg \<lparr>start = 10, end = 12\<rparr>,
                  ''log: Problem fetching from log: timeout''],
       requests = 1, sent = []\<rparr>) \<and>
   fetch_range (demo_scanner dead_log) \<lparr>start = 10, end = 12\<rparr> no_view = None"
proof -
  have a: "GetEntries (logClient (demo_scanner slow_log)) (requests no_view) 10 12 = Inl ''timeout''"
    by (simp add: demo_scanner_def NewScanner_def slow_log_def no_view_def)
  have d: "\<forall>m \<ge> requests no_view. \<exists>err.
      GetEntries (logClient (demo_scanner dead_log)) m
        (start \<lparr>start = 10 :: int64, end = 12 :: int64\<rparr>) (end \<lparr>start = 10 :: int64, end = 12 :: int64\<rparr>) = Inl err"
    by (simp add: demo_scanner_def NewScanner_def dead_log_def)
  have "fetch_range (demo_scanner dead_log) \<lparr>start = 10, end = 12\<rparr> no_view = None"
    using fetch_failure_retried [of "demo_scanner dead_log" no_view "\<lparr>start = 10, end = 12\<rparr>"] d
    by blast
  then show ?thesis using a slow_attempt by simp
qed

end
